theory Spec2Isabelle
  imports Main "HOL-Library.AList"
begin

section \<open>JavaScript values, errors and the browser environment\<close>

text \<open>
  The values the program handles. Numbers are the integers (ids, timestamps, counters);
  \<open>JBigInt\<close> stands for the values \<open>JSON.stringify\<close> refuses. An object is the list
  of its own properties in insertion order.
\<close>

datatype jsval =
    JUndefined
  | JNull
  | JBool bool
  | JNum int
  | JBigInt int
  | JStr string
  | JArr "jsval list"
  | JObj "(string \<times> jsval) list"

datatype js_error =
    SecurityError
  | QuotaExceededError
  | SyntaxError
  | TypeError
  | URIError
  | Error string

type_synonym 'a result = "js_error + 'a"

text \<open>The truth value of \<open>if (v)\<close>, \<open>v ? a : b\<close>, \<open>!v\<close> and \<open>v || d\<close>.\<close>

fun truthy :: "jsval \<Rightarrow> bool" where
  "truthy JUndefined = False"
| "truthy JNull = False"
| "truthy (JBool b) = b"
| "truthy (JNum n) = (n \<noteq> 0)"
| "truthy (JBigInt n) = (n \<noteq> 0)"
| "truthy (JStr s) = (s \<noteq> [])"
| "truthy (JArr xs) = True"
| "truthy (JObj kvs) = True"

text \<open>
  Reading an own property, \<open>o.k\<close>: \<open>undefined\<close> when the value is not an object or has
  no such property. (The names read below, \<open>data\<close> and \<open>timestamp\<close>, are not
  inherited from any prototype.)
\<close>

fun js_get :: "jsval \<Rightarrow> string \<Rightarrow> jsval" where
  "js_get (JObj kvs) k = (case map_of kvs k of None \<Rightarrow> JUndefined | Some v \<Rightarrow> v)"
| "js_get v k = JUndefined"

text \<open>
  \<open>JSON.stringify\<close> throws a TypeError on a BigInt it has to write. A property whose
  value is \<open>undefined\<close> is left out of an object, and \<open>undefined\<close> in an array is
  written as \<open>null\<close>.
\<close>

fun stringifiable :: "jsval \<Rightarrow> bool" where
  "stringifiable (JBigInt n) = False"
| "stringifiable (JArr xs) = list_all stringifiable xs"
| "stringifiable (JObj kvs) = list_all (\<lambda>kv. stringifiable (snd kv)) kvs"
| "stringifiable v = True"

fun json_norm :: "jsval \<Rightarrow> jsval" where
  "json_norm (JArr xs) =
     JArr (map (\<lambda>x. case json_norm x of JUndefined \<Rightarrow> JNull | y \<Rightarrow> y) xs)"
| "json_norm (JObj kvs) =
     JObj (filter (\<lambda>kv. snd kv \<noteq> JUndefined) (map (\<lambda>kv. (fst kv, json_norm (snd kv))) kvs))"
| "json_norm v = v"

text \<open>
  A string held by \<open>localStorage\<close>: either the JSON text of a value, which
  \<open>JSON.parse\<close> reads back, or a string that is no JSON text (such as
  \<open>undefined\<close> or the empty string), on which \<open>JSON.parse\<close> throws a SyntaxError.
\<close>

datatype dom_string = JSON_text jsval | Other_text string

definition JSON_stringify :: "jsval \<Rightarrow> dom_string option result" where
  "JSON_stringify v =
     (if \<not> stringifiable v then Inl TypeError
      else if v = JUndefined then Inr None
      else Inr (Some (JSON_text (json_norm v))))"

fun JSON_parse :: "dom_string \<Rightarrow> jsval result" where
  "JSON_parse (JSON_text v) = Inr v"
| "JSON_parse (Other_text s) = Inl SyntaxError"

text \<open>A missing argument of string type is turned into the string \<open>undefined\<close>.\<close>

fun to_dom_string :: "dom_string option \<Rightarrow> dom_string" where
  "to_dom_string None = Other_text ''undefined''"
| "to_dom_string (Some t) = t"

fun nonempty_text :: "dom_string \<Rightarrow> bool" where
  "nonempty_text (JSON_text v) = True"
| "nonempty_text (Other_text s) = (s \<noteq> [])"

datatype console_call =
    console_error string js_error
  | console_warn string jsval
  | console_info string jsval

text \<open>
  The browser as the program sees it: the entries of \<open>localStorage\<close> in key order,
  whether the store can be reached at all (otherwise every access throws a
  SecurityError), whether it is at its quota (then \<open>setItem\<close> throws a
  QuotaExceededError), the console, and the clock read by \<open>Date.now()\<close>.
\<close>

record world =
  localStorage :: "(string \<times> dom_string) list"
  storage_available :: bool
  storage_full :: bool
  console :: "console_call list"
  Date_now :: int

definition console_log :: "console_call \<Rightarrow> world \<Rightarrow> world" where
  "console_log c w = w\<lparr>console := console w @ [c]\<rparr>"

definition localStorage_setItem :: "string \<Rightarrow> dom_string \<Rightarrow> world \<Rightarrow> unit result \<times> world" where
  "localStorage_setItem key text w =
     (if \<not> storage_available w then (Inl SecurityError, w)
      else if storage_full w then (Inl QuotaExceededError, w)
      else (Inr (), w\<lparr>localStorage := AList.update key text (localStorage w)\<rparr>))"

definition localStorage_getItem :: "string \<Rightarrow> world \<Rightarrow> dom_string option result \<times> world" where
  "localStorage_getItem key w =
     (if \<not> storage_available w then (Inl SecurityError, w)
      else (Inr (map_of (localStorage w) key), w))"

definition localStorage_removeItem :: "string \<Rightarrow> world \<Rightarrow> unit result \<times> world" where
  "localStorage_removeItem key w =
     (if \<not> storage_available w then (Inl SecurityError, w)
      else (Inr (), w\<lparr>localStorage := AList.delete key (localStorage w)\<rparr>))"

definition localStorage_clear :: "world \<Rightarrow> unit result \<times> world" where
  "localStorage_clear w =
     (if \<not> storage_available w then (Inl SecurityError, w)
      else (Inr (), w\<lparr>localStorage := []\<rparr>))"


subsection \<open>Statements that may throw\<close>

text \<open>
  A statement runs in a world and either returns a value or throws, and leaves a world
  behind in both cases. A promise that has settled is the same thing: resolved with a
  value or rejected with an error; \<open>.then\<close> is \<open>bind_io\<close> and \<open>.catch\<close> is
  \<open>try_catch\<close>. The state is the world for the services and the page for the router.
\<close>

type_synonym 'a io = "world \<Rightarrow> 'a result \<times> world"

definition return_io :: "'a \<Rightarrow> 's \<Rightarrow> 'a result \<times> 's" where
  "return_io v w = (Inr v, w)"

definition throw_io :: "js_error \<Rightarrow> 's \<Rightarrow> 'a result \<times> 's" where
  "throw_io e w = (Inl e, w)"

definition lift_io :: "'a result \<Rightarrow> 's \<Rightarrow> 'a result \<times> 's" where
  "lift_io r w = (r, w)"

definition bind_io ::
  "('s \<Rightarrow> 'a result \<times> 's) \<Rightarrow> ('a \<Rightarrow> 's \<Rightarrow> 'b result \<times> 's) \<Rightarrow> 's \<Rightarrow> 'b result \<times> 's" where
  "bind_io m f w = (case m w of (Inl e, w') \<Rightarrow> (Inl e, w') | (Inr v, w') \<Rightarrow> f v w')"

definition try_catch ::
  "('s \<Rightarrow> 'a result \<times> 's) \<Rightarrow> (js_error \<Rightarrow> 's \<Rightarrow> 'a result \<times> 's) \<Rightarrow> 's \<Rightarrow> 'a result \<times> 's" where
  "try_catch body handler w =
     (case body w of (Inl e, w') \<Rightarrow> handler e w' | (Inr v, w') \<Rightarrow> (Inr v, w'))"

definition log_io :: "console_call \<Rightarrow> unit io" where
  "log_io c w = (Inr (), console_log c w)"

section \<open>StorageService\<close>

definition setItem :: "string \<Rightarrow> jsval \<Rightarrow> unit io" where
  "setItem key val =
     try_catch
       (bind_io (lift_io (JSON_stringify val))
          (\<lambda>text. localStorage_setItem key (to_dom_string text)))
       (\<lambda>error. log_io (console_error ''Error saving to localStorage:'' error))"

definition getItem :: "string \<Rightarrow> jsval io" where
  "getItem key =
     try_catch
       (bind_io (localStorage_getItem key)
          (\<lambda>item. case item of
               None \<Rightarrow> return_io JNull
             | Some text \<Rightarrow>
                 if nonempty_text text then lift_io (JSON_parse text) else return_io JNull))
       (\<lambda>error. bind_io (log_io (console_error ''Error reading from localStorage:'' error))
          (\<lambda>_. return_io JNull))"

definition removeItem :: "string \<Rightarrow> unit io" where
  "removeItem key =
     try_catch (localStorage_removeItem key)
       (\<lambda>error. log_io (console_error ''Error removing from localStorage:'' error))"

definition clear :: "unit io" where
  "clear =
     try_catch localStorage_clear
       (\<lambda>error. log_io (console_error ''Error clearing localStorage:'' error))"

subsection \<open>User session\<close>

definition USER_SESSION_KEY :: string where
  "USER_SESSION_KEY = ''user_session''"

definition setUser :: "jsval \<Rightarrow> unit io" where
  "setUser userData = setItem USER_SESSION_KEY userData"

definition getUser :: "jsval io" where
  "getUser = getItem USER_SESSION_KEY"

definition removeUser :: "unit io" where
  "removeUser = removeItem USER_SESSION_KEY"

definition isLoggedIn :: "bool io" where
  "isLoggedIn = bind_io getUser (\<lambda>user. return_io (user \<noteq> JNull))"

subsection \<open>Posts\<close>

definition POSTS_CACHE_KEY :: string where
  "POSTS_CACHE_KEY = ''posts_cache''"

definition EDITED_POST_PREFIX :: string where
  "EDITED_POST_PREFIX = ''edited_post_''"

text \<open>
  The number a value stands for in \<open>Date.now() - v\<close>; \<open>None\<close> is NaN. Exact for
  \<open>undefined\<close>, \<open>null\<close>, booleans, numbers and objects; the numbers that strings and
  arrays are read as are not modelled (they are taken as NaN), and a BigInt cannot come
  out of \<open>JSON.parse\<close>. \<open>cachePosts\<close> writes a number.
\<close>

fun to_number :: "jsval \<Rightarrow> int option" where
  "to_number JNull = Some 0"
| "to_number (JBool b) = Some (if b then 1 else 0)"
| "to_number (JNum n) = Some n"
| "to_number v = None"

definition cachePosts :: "jsval \<Rightarrow> unit io" where
  "cachePosts posts w =
     setItem POSTS_CACHE_KEY (JObj [(''data'', posts), (''timestamp'', JNum (Date_now w))]) w"

definition getCachedPosts :: "jsval io" where
  "getCachedPosts =
     bind_io (getItem POSTS_CACHE_KEY)
       (\<lambda>cache w.
          if \<not> truthy cache then return_io JNull w
          else
            let oneHour = 60 * 60 * 1000 in
            if (case to_number (js_get cache ''timestamp'') of
                  None \<Rightarrow> False
                | Some t \<Rightarrow> Date_now w - t > oneHour)
            then bind_io (removeItem POSTS_CACHE_KEY) (\<lambda>_. return_io JNull) w
            else return_io (js_get cache ''data'') w)"

text \<open>The decimal digits of an id, as \<open>'edited_post_' + postId\<close> writes them.\<close>

fun nat_to_string :: "nat \<Rightarrow> string" where
  "nat_to_string n =
     (if n < 10 then [char_of (48 + n)]
      else nat_to_string (n div 10) @ [char_of (48 + n mod 10)])"

definition number_to_string :: "int \<Rightarrow> string" where
  "number_to_string i =
     (if i < 0 then CHR ''-'' # nat_to_string (nat (- i)) else nat_to_string (nat i))"

definition saveEditedPost :: "int \<Rightarrow> jsval \<Rightarrow> unit io" where
  "saveEditedPost postId postData w =
     (let key = EDITED_POST_PREFIX @ number_to_string postId in
      setItem key (JObj [(''data'', postData), (''timestamp'', JNum (Date_now w))]) w)"

definition getEditedPost :: "int \<Rightarrow> jsval io" where
  "getEditedPost postId =
     (let key = EDITED_POST_PREFIX @ number_to_string postId in
      bind_io (getItem key)
        (\<lambda>editedData. return_io (if truthy editedData then js_get editedData ''data'' else JNull)))"

definition isPostEdited :: "int \<Rightarrow> bool io" where
  "isPostEdited postId = bind_io (getEditedPost postId) (\<lambda>d. return_io (d \<noteq> JNull))"

definition removeEditedPost :: "int \<Rightarrow> unit io" where
  "removeEditedPost postId = removeItem (EDITED_POST_PREFIX @ number_to_string postId)"

text \<open>JSON data: a value that \<open>JSON.stringify\<close> accepts and \<open>JSON.parse\<close> gives back as it is.\<close>

definition is_json :: "jsval \<Rightarrow> bool" where
  "is_json v = (stringifiable v \<and> v \<noteq> JUndefined \<and> json_norm v = v)"

section \<open>ApiService\<close>

text \<open>
  What \<open>fetch\<close> settles with is not decided by the program: it is the argument
  \<open>fetched\<close>, a network failure or a response with its status and what
  \<open>response.json()\<close> settles with.
\<close>

record response =
  ok :: bool
  status :: nat
  statusText :: string
  json :: "jsval result"

definition makeRequest :: "response result \<Rightarrow> jsval io" where
  "makeRequest fetched =
     try_catch
       (bind_io (lift_io fetched)
          (\<lambda>response.
             if \<not> ok response
             then throw_io (Error (''HTTP '' @ nat_to_string (status response) @ '': ''
                                     @ statusText response))
             else lift_io (json response)))
       (\<lambda>error. bind_io (log_io (console_error ''API Request failed:'' error))
          (\<lambda>_. throw_io error))"

definition updatePost :: "int \<Rightarrow> jsval \<Rightarrow> response result \<Rightarrow> jsval io" where
  "updatePost postId postData fetched =
     bind_io (lift_io (JSON_stringify postData))
       (\<lambda>body.
          try_catch
            (bind_io (makeRequest fetched)
               (\<lambda>response.
                  bind_io (saveEditedPost postId postData)
                    (\<lambda>_. bind_io (log_io (console_info ''Post updated locally:'' (JNum postId)))
                       (\<lambda>_. return_io response))))
            (\<lambda>error.
               bind_io (saveEditedPost postId postData)
                 (\<lambda>_. bind_io (log_io (console_info ''Post saved locally due to API error:''
                                           (JNum postId)))
                    (\<lambda>_. return_io postData))))"

subsection \<open>Merging local edits\<close>

text \<open>
  The own enumerable properties of a value, as \<open>Object.assign\<close> reads them from a
  source: those of an object, the elements of an array and the characters of a string
  under their indices, and none for the other values.
\<close>

fun own_entries :: "jsval \<Rightarrow> (string \<times> jsval) list" where
  "own_entries (JObj kvs) = kvs"
| "own_entries (JArr xs) = zip (map nat_to_string [0..<length xs]) xs"
| "own_entries (JStr s) = zip (map nat_to_string [0..<length s]) (map (\<lambda>c. JStr [c]) s)"
| "own_entries v = []"

text \<open>
  The assignment \<open>o[k] = v\<close> on a plain object. Under the name \<open>__proto__\<close> it
  reaches the setter inherited from \<open>Object.prototype\<close> and makes no own property.
\<close>

definition obj_set :: "(string \<times> 'v) list \<Rightarrow> string \<Rightarrow> 'v \<Rightarrow> (string \<times> 'v) list" where
  "obj_set props k v = (if k = ''__proto__'' then props else AList.update k v props)"

definition Object_assign :: "(string \<times> jsval) list \<Rightarrow> jsval list \<Rightarrow> jsval" where
  "Object_assign target sources =
     JObj (foldl (\<lambda>t source. foldl (\<lambda>t' kv. obj_set t' (fst kv) (snd kv)) t (own_entries source))
             target sources)"

text \<open>
  \<open>fetchPost\<close> settles with the record of the remote collection or of the cache, or
  fails; that settled promise is the argument \<open>fetchedPost\<close>.
\<close>

definition getPostWithEdits :: "int \<Rightarrow> jsval result \<Rightarrow> jsval io" where
  "getPostWithEdits postId fetchedPost =
     bind_io (lift_io fetchedPost)
       (\<lambda>originalPost.
          bind_io (getEditedPost postId)
            (\<lambda>editedData.
               if truthy editedData
               then return_io (Object_assign [] [originalPost, editedData])
               else return_io originalPost))"

subsection \<open>Retrying a request\<close>

text \<open>
  \<open>requestFn i\<close> is what the call number \<open>i\<close> of the request function settles with.
  The state counts the calls and lists the delays handed to \<open>setTimeout\<close>. An omitted
  argument is \<open>None\<close>. The first argument bounds the number of calls looked at: the
  result \<open>None\<close> says that the promise has not settled within them.
\<close>

record retry_state =
  calls :: nat
  timeouts :: "int list"
  warnings :: "console_call list"

definition or_default :: "int option \<Rightarrow> int \<Rightarrow> int" where
  "or_default v d = (case v of None \<Rightarrow> d | Some n \<Rightarrow> if n = 0 then d else n)"

fun retryRequest ::
  "nat \<Rightarrow> (nat \<Rightarrow> jsval result) \<Rightarrow> int option \<Rightarrow> int option \<Rightarrow> retry_state
     \<Rightarrow> jsval result option \<times> retry_state" where
  "retryRequest 0 requestFn maxRetries delay st = (None, st)"
| "retryRequest (Suc n) requestFn maxRetries delay st =
     (let maxRetries' = or_default maxRetries 3;
          delay' = or_default delay 1000;
          st' = st\<lparr>calls := calls st + 1\<rparr>
      in case requestFn (calls st) of
           Inr v \<Rightarrow> (Some (Inr v), st')
         | Inl error \<Rightarrow>
             if maxRetries' \<le> 0 then (Some (Inl error), st')
             else retryRequest n requestFn (Some (maxRetries' - 1)) (Some (delay' * 2))
                    (st'\<lparr>timeouts := timeouts st' @ [delay'],
                         warnings := warnings st' @
                           [console_warn (''Request failed, retrying in ''
                              @ number_to_string delay' @ ''ms. Retries left:'') (JNum maxRetries')]\<rparr>))"

section \<open>Strings of the URL fragment\<close>

text \<open>
  A string is the list of the bytes of its UTF-8 form, so a character beyond ASCII is
  two to four bytes. \<open>encodeURIComponent\<close> keeps the unreserved ASCII characters and
  writes every other byte as \<open>%XX\<close>. \<open>decodeURIComponent\<close> throws a URIError on an
  escape that is cut short or is not hexadecimal, and on escaped bytes that are not the
  UTF-8 form of a code point.
\<close>

definition uri_unreserved :: "char \<Rightarrow> bool" where
  "uri_unreserved c =
     (let n = (of_char c :: nat) in
      (65 \<le> n \<and> n \<le> 90) \<or> (97 \<le> n \<and> n \<le> 122) \<or> (48 \<le> n \<and> n \<le> 57)
      \<or> c \<in> set ''-_.!~*()'' \<or> n = 39)"

definition hex_digit :: "nat \<Rightarrow> char" where
  "hex_digit n = ''0123456789ABCDEF'' ! n"

definition percent_encode :: "char \<Rightarrow> string" where
  "percent_encode c =
     [CHR ''%'', hex_digit ((of_char c :: nat) div 16), hex_digit ((of_char c :: nat) mod 16)]"

definition encodeURIComponent :: "string \<Rightarrow> string" where
  "encodeURIComponent s = concat (map (\<lambda>c. if uri_unreserved c then [c] else percent_encode c) s)"

definition hex_value :: "char \<Rightarrow> nat option" where
  "hex_value c =
     (let n = (of_char c :: nat) in
      if 48 \<le> n \<and> n \<le> 57 then Some (n - 48)
      else if 65 \<le> n \<and> n \<le> 70 then Some (n - 55)
      else if 97 \<le> n \<and> n \<le> 102 then Some (n - 87)
      else None)"

text \<open>Reads \<open>n\<close> escapes \<open>%XX\<close> from the front of a string: their bytes and the rest.\<close>

fun take_escapes :: "nat \<Rightarrow> string \<Rightarrow> (nat list \<times> string) option" where
  "take_escapes 0 s = Some ([], s)"
| "take_escapes (Suc n) (p # h1 # h2 # s) =
     (if p \<noteq> CHR ''%'' then None
      else case (hex_value h1, hex_value h2) of
             (Some a, Some b) \<Rightarrow>
               (case take_escapes n s of
                  None \<Rightarrow> None
                | Some (bytes, rest) \<Rightarrow> Some ((16 * a + b) # bytes, rest))
           | _ \<Rightarrow> None)"
| "take_escapes (Suc n) s = None"

text \<open>The number of bytes that follow a leading byte of a UTF-8 sequence (0: not a leading byte).\<close>

definition utf8_continuations :: "nat \<Rightarrow> nat" where
  "utf8_continuations b =
     (if 192 \<le> b \<and> b < 224 then 1
      else if 224 \<le> b \<and> b < 240 then 2
      else if 240 \<le> b \<and> b < 248 then 3
      else 0)"

definition utf8_tail :: "nat \<Rightarrow> bool" where
  "utf8_tail b = (128 \<le> b \<and> b \<le> 191)"

text \<open>The UTF-8 form of one code point beyond ASCII: not overlong, no surrogate, at most U+10FFFF.\<close>

fun valid_utf8_octets :: "nat list \<Rightarrow> bool" where
  "valid_utf8_octets [b1, b2] = (194 \<le> b1 \<and> b1 \<le> 223 \<and> utf8_tail b2)"
| "valid_utf8_octets [b1, b2, b3] =
     ((b1 = 224 \<and> 160 \<le> b2 \<and> b2 \<le> 191
       \<or> 225 \<le> b1 \<and> b1 \<le> 236 \<and> utf8_tail b2
       \<or> b1 = 237 \<and> 128 \<le> b2 \<and> b2 \<le> 159
       \<or> 238 \<le> b1 \<and> b1 \<le> 239 \<and> utf8_tail b2) \<and> utf8_tail b3)"
| "valid_utf8_octets [b1, b2, b3, b4] =
     ((b1 = 240 \<and> 144 \<le> b2 \<and> b2 \<le> 191
       \<or> 241 \<le> b1 \<and> b1 \<le> 243 \<and> utf8_tail b2
       \<or> b1 = 244 \<and> 128 \<le> b2 \<and> b2 \<le> 143) \<and> utf8_tail b3 \<and> utf8_tail b4)"
| "valid_utf8_octets bs = False"

lemma take_escapes_shorter:
  "take_escapes n s = Some (bytes, rest) \<Longrightarrow> length rest \<le> length s"
proof (induction n s arbitrary: bytes rest rule: take_escapes.induct)
  case (2 n p h1 h2 s)
  then show ?case
    by (auto split: if_splits option.splits prod.splits) fastforce
qed simp_all

lemma take_escapes_Suc_shorter:
  "take_escapes (Suc n) s = Some (bytes, rest) \<Longrightarrow> length rest < length s"
  by (cases "(Suc n, s)" rule: take_escapes.cases)
     (auto split: if_splits option.splits prod.splits dest: take_escapes_shorter)

function decodeURIComponent :: "string \<Rightarrow> string result" where
  "decodeURIComponent [] = Inr []"
| "decodeURIComponent (c # s) =
     (if c \<noteq> CHR ''%'' then
        (case decodeURIComponent s of Inl e \<Rightarrow> Inl e | Inr r \<Rightarrow> Inr (c # r))
      else case take_escapes 1 (c # s) of
          None \<Rightarrow> Inl URIError
        | Some (first, rest) \<Rightarrow>
            let b = hd first in
            if b < 128 then
              (case decodeURIComponent rest of Inl e \<Rightarrow> Inl e | Inr r \<Rightarrow> Inr (char_of b # r))
            else if utf8_continuations b = 0 then Inl URIError
            else case take_escapes (utf8_continuations b) rest of
                None \<Rightarrow> Inl URIError
              | Some (tails, rest') \<Rightarrow>
                  if valid_utf8_octets (b # tails)
                  then (case decodeURIComponent rest' of
                          Inl e \<Rightarrow> Inl e
                        | Inr r \<Rightarrow> Inr (map char_of (b # tails) @ r))
                  else Inl URIError)"
  by pat_completeness auto
termination
proof (relation "measure length"; clarsimp)
  fix s first rest
  assume "take_escapes (Suc 0) (CHR ''%'' # s) = Some (first, rest)"
  from take_escapes_Suc_shorter[OF this] show "length rest < Suc (length s)" by simp
next
  fix s first rest tails rest'
  assume "take_escapes (Suc 0) (CHR ''%'' # s) = Some (first, rest)"
    and "take_escapes (utf8_continuations (hd first)) rest = Some (tails, rest')"
  from take_escapes_Suc_shorter[OF this(1)] take_escapes_shorter[OF this(2)]
  show "length rest' < Suc (length s)" by simp
qed

text \<open>
  A string whose bytes are the UTF-8 form of a sequence of code points: the strings that
  \<open>encodeURIComponent\<close> accepts.
\<close>

fun utf8_string :: "string \<Rightarrow> bool" where
  "utf8_string [] = True"
| "utf8_string (c # s) =
     (if (of_char c :: nat) < 128 then utf8_string s
      else utf8_continuations (of_char c) \<noteq> 0
           \<and> utf8_continuations (of_char c) \<le> length s
           \<and> valid_utf8_octets (of_char c # map of_char (take (utf8_continuations (of_char c)) s))
           \<and> utf8_string (drop (utf8_continuations (of_char c)) s))"

subsection \<open>Splitting and joining\<close>

text \<open>\<open>s.split(c)\<close> for a one-character separator, and \<open>list.join(sep)\<close>.\<close>

fun split_on :: "char \<Rightarrow> string \<Rightarrow> string list" where
  "split_on sep [] = [[]]"
| "split_on sep (c # cs) =
     (if c = sep then [] # split_on sep cs
      else case split_on sep cs of
             [] \<Rightarrow> [[c]]
           | x # xs \<Rightarrow> (c # x) # xs)"

fun join_with :: "string \<Rightarrow> string list \<Rightarrow> string" where
  "join_with sep [] = []"
| "join_with sep [x] = x"
| "join_with sep (x # y # ys) = x @ sep @ join_with sep (y # ys)"

section \<open>Router\<close>

text \<open>
  A route as parsed from the fragment, a route definition as \<open>addRoute\<close> stores it, and
  the current route. A handler is given the parameters and the previous route (its path
  and parameters); what it does to the views is outside the router, so it is a function
  that returns or throws. Parameters are an object of strings: the list of its own
  properties.
\<close>

record route_info =
  path :: string
  params :: "(string \<times> string) list"

record route_definition =
  handler :: "(string \<times> string) list \<Rightarrow> route_info option \<Rightarrow> jsval result"
  requiresAuth :: bool
  title :: string
  param_names :: "string list"

text \<open>
  \<open>routes\<close> is a plain object, so \<open>routes[path]\<close> finds the registered definition, or
  else a member that every object inherits from \<open>Object.prototype\<close>, or else
  \<open>undefined\<close>. An inherited member is a truthy value without \<open>requiresAuth\<close>,
  \<open>title\<close> or \<open>handler\<close>.
\<close>

datatype route_ref = Registered route_definition | Inherited_member string

definition Object_prototype_names :: "string list" where
  "Object_prototype_names =
     [''constructor'', ''__defineGetter__'', ''__defineSetter__'', ''hasOwnProperty'',
      ''__lookupGetter__'', ''__lookupSetter__'', ''isPrototypeOf'', ''propertyIsEnumerable'',
      ''toString'', ''valueOf'', ''__proto__'', ''toLocaleString'']"

definition routes_get :: "(string \<times> route_definition) list \<Rightarrow> string \<Rightarrow> route_ref option" where
  "routes_get rs p =
     (case map_of rs p of
        Some d \<Rightarrow> Some (Registered d)
      | None \<Rightarrow> if p \<in> set Object_prototype_names then Some (Inherited_member p) else None)"

fun ref_requiresAuth :: "route_ref \<Rightarrow> bool" where
  "ref_requiresAuth (Registered d) = requiresAuth d"
| "ref_requiresAuth (Inherited_member n) = False"

fun ref_title :: "route_ref \<Rightarrow> string" where
  "ref_title (Registered d) = title d"
| "ref_title (Inherited_member n) = []"

fun call_handler :: "route_ref \<Rightarrow> (string \<times> string) list \<Rightarrow> route_info option \<Rightarrow> jsval result" where
  "call_handler (Registered d) ps previous = handler d ps previous"
| "call_handler (Inherited_member n) ps previous = Inl TypeError"

record current_route = route_info +
  route :: route_ref

datatype location_request = location_replace string | location_assign string

datatype invocation = Before_callback nat | Route_handler string | After_callback nat

text \<open>
  The page: the variables of the Router module, the title of the document, the fragment
  of the location and what has been asked of \<open>window.location\<close>, the callbacks and
  handlers invoked so far (callbacks by their position in the list), and the world of the
  storage service. A callback is a function of its two arguments that returns a value or
  throws.
\<close>

record page =
  routes :: "(string \<times> route_definition) list"
  currentRoute :: "current_route option"
  defaultRoute :: string
  beforeRouteChangeCallbacks :: "(current_route option \<Rightarrow> route_info \<Rightarrow> jsval result) list"
  afterRouteChangeCallbacks :: "(current_route \<Rightarrow> current_route option \<Rightarrow> jsval result) list"
  document_title :: string
  location_hash :: string
  location_requests :: "location_request list"
  invoked :: "invocation list"
  env :: world

type_synonym 'a rio = "page \<Rightarrow> 'a result \<times> page"

definition in_env :: "'a io \<Rightarrow> 'a rio" where
  "in_env m st = (case m (env st) of (r, w') \<Rightarrow> (r, st\<lparr>env := w'\<rparr>))"

definition console_io :: "console_call \<Rightarrow> unit rio" where
  "console_io c = in_env (log_io c)"

definition note_invoked :: "invocation \<Rightarrow> page \<Rightarrow> page" where
  "note_invoked i st = st\<lparr>invoked := invoked st @ [i]\<rparr>"

text \<open>A handler has been invoked when the route has one: an inherited member has none.\<close>

fun note_handler :: "route_ref \<Rightarrow> string \<Rightarrow> page \<Rightarrow> page" where
  "note_handler (Registered d) p st = note_invoked (Route_handler p) st"
| "note_handler (Inherited_member n) p st = st"

text \<open>The handler invocations of one route change.\<close>

definition handler_calls :: "route_ref \<Rightarrow> string \<Rightarrow> invocation list" where
  "handler_calls rt p = (case rt of Registered d \<Rightarrow> [Route_handler p] | Inherited_member n \<Rightarrow> [])"

definition navigate :: "string \<Rightarrow> (string \<times> string) list \<Rightarrow> bool \<Rightarrow> unit rio" where
  "navigate p ps replace st =
     (let hash = ''#'' @ p;
          hash = (if length (map fst ps) > 0
                  then hash @ ''?'' @ join_with ''&''
                         (map (\<lambda>key. encodeURIComponent key @ ''='' @
                                 encodeURIComponent (case map_of ps key of
                                                        None \<Rightarrow> ''undefined'' | Some v \<Rightarrow> v))
                              (map fst ps))
                  else hash)
      in if replace
         then (Inr (), st\<lparr>location_requests := location_requests st @ [location_replace hash]\<rparr>)
         else (Inr (), st\<lparr>location_requests := location_requests st @ [location_assign hash]\<rparr>))"

definition getCurrentRoute :: "page \<Rightarrow> current_route option" where
  "getCurrentRoute st = currentRoute st"

text \<open>
  The callback of the \<open>forEach\<close> over the parameters in \<open>parseHash\<close>: the object built
  so far and the next parameter. An error thrown by \<open>decodeURIComponent\<close> ends the loop
  and \<open>parseHash\<close>.
\<close>

definition parse_param :: "(string \<times> string) list result \<Rightarrow> string \<Rightarrow> (string \<times> string) list result" where
  "parse_param acc param =
     (case acc of
        Inl e \<Rightarrow> Inl e
      | Inr ps \<Rightarrow>
          (case split_on CHR ''='' param of
             [k, v] \<Rightarrow>
               (case decodeURIComponent k of
                  Inl e \<Rightarrow> Inl e
                | Inr key \<Rightarrow>
                    (case decodeURIComponent v of
                       Inl e \<Rightarrow> Inl e
                     | Inr val \<Rightarrow> Inr (obj_set ps key val)))
           | _ \<Rightarrow> Inr ps))"

definition parseHash :: "string option \<Rightarrow> route_info rio" where
  "parseHash given st =
     (let hash = (case given of None \<Rightarrow> location_hash st
                  | Some h \<Rightarrow> if h = [] then location_hash st else h);
          hash = (case hash of c # cs \<Rightarrow> if c = CHR ''#'' then cs else hash | [] \<Rightarrow> hash)
      in if hash = [] then (Inr \<lparr>path = defaultRoute st, params = []\<rparr>, st)
         else
           let parts = split_on CHR ''?'' hash;
               p = (if hd parts = [] then defaultRoute st else hd parts);
               queryString = (case tl parts of [] \<Rightarrow> [] | q # _ \<Rightarrow> q)
           in if queryString = [] then (Inr \<lparr>path = p, params = []\<rparr>, st)
              else
                (case foldl parse_param (Inr []) (split_on CHR ''&'' queryString) of
                   Inl e \<Rightarrow> (Inl e, st)
                 | Inr ps \<Rightarrow> (Inr \<lparr>path = p, params = ps\<rparr>, st)))"

definition isAuthenticated :: "bool rio" where
  "isAuthenticated = in_env isLoggedIn"

text \<open>The two \<open>forEach\<close> loops over the callbacks; \<open>i\<close> is the position of the next one.\<close>

fun run_before ::
  "(current_route option \<Rightarrow> route_info \<Rightarrow> jsval result) list \<Rightarrow> nat \<Rightarrow> route_info \<Rightarrow> bool
     \<Rightarrow> page \<Rightarrow> bool \<times> page" where
  "run_before [] i routeInfo canProceed st = (canProceed, st)"
| "run_before (callback # rest) i routeInfo canProceed st =
     (case callback (currentRoute st) routeInfo of
        Inr res \<Rightarrow>
          run_before rest (Suc i) routeInfo (if res = JBool False then False else canProceed)
            (note_invoked (Before_callback i) st)
      | Inl error \<Rightarrow>
          run_before rest (Suc i) routeInfo canProceed
            (snd (console_io (console_error ''Error in before route change callback:'' error)
                    (note_invoked (Before_callback i) st))))"

fun run_after ::
  "(current_route \<Rightarrow> current_route option \<Rightarrow> jsval result) list \<Rightarrow> nat \<Rightarrow> current_route
     \<Rightarrow> current_route option \<Rightarrow> page \<Rightarrow> page" where
  "run_after [] i current previousRoute st = st"
| "run_after (callback # rest) i current previousRoute st =
     (case callback current previousRoute of
        Inr res \<Rightarrow> run_after rest (Suc i) current previousRoute (note_invoked (After_callback i) st)
      | Inl error \<Rightarrow>
          run_after rest (Suc i) current previousRoute
            (snd (console_io (console_error ''Error in after route change callback:'' error)
                    (note_invoked (After_callback i) st))))"

text \<open>
  \<open>handleRouteChange\<close>, in two parts: \<open>change_route\<close> is the second half of the
  function (from the callbacks before the change to those after it), entered when no
  guard has redirected.
\<close>

definition change_route :: "route_ref \<Rightarrow> route_info \<Rightarrow> unit rio" where
  "change_route rt routeInfo st =
     (case run_before (beforeRouteChangeCallbacks st) 0 routeInfo True st of
        (canProceed, st2) \<Rightarrow>
          if \<not> canProceed then (Inr (), st2)
          else
            let previousRoute = currentRoute st2;
                current = \<lparr>path = path routeInfo, params = params routeInfo, route = rt\<rparr>;
                st3 = st2\<lparr>currentRoute := Some current\<rparr>;
                st4 = (if ref_title rt \<noteq> []
                       then st3\<lparr>document_title := ref_title rt @ '' - Post Management''\<rparr>
                       else st3);
                st5 = (case call_handler rt (params routeInfo)
                              (map_option route_info.truncate previousRoute) of
                         Inr res \<Rightarrow> note_handler rt (path routeInfo) st4
                       | Inl error \<Rightarrow>
                           snd (console_io (console_error ''Error executing route handler:'' error)
                                  (note_handler rt (path routeInfo) st4)))
            in (Inr (), run_after (afterRouteChangeCallbacks st5) 0 current previousRoute st5))"

definition handleRouteChange :: "route_info \<Rightarrow> unit rio" where
  "handleRouteChange routeInfo st =
     (case routes_get (routes st) (path routeInfo) of
        None \<Rightarrow>
          bind_io (console_io (console_warn ''Route not found:'' (JStr (path routeInfo))))
            (\<lambda>_. navigate (defaultRoute st) [] True) st
      | Some rt \<Rightarrow>
          bind_io (if ref_requiresAuth rt
                   then bind_io isAuthenticated (\<lambda>a. return_io (\<not> a))
                   else return_io False)
            (\<lambda>refused.
               if refused then
                 bind_io (console_io (console_warn ''Route requires authentication:''
                                        (JStr (path routeInfo))))
                   (\<lambda>_. navigate ''login'' [] True)
               else
                 bind_io (if path routeInfo = ''login'' then isAuthenticated else return_io False)
                   (\<lambda>loggedIn.
                      if loggedIn then navigate ''posts'' [] True
                      else change_route rt routeInfo)) st)"

definition hasRoute :: "string \<Rightarrow> page \<Rightarrow> bool" where
  "hasRoute p st = (map_of (routes st) p \<noteq> None)"

definition generateUrl :: "string \<Rightarrow> (string \<times> string) list \<Rightarrow> string" where
  "generateUrl p ps =
     (let url = ''#'' @ p
      in if length (map fst ps) > 0
         then url @ ''?'' @ join_with ''&''
                (map (\<lambda>key. encodeURIComponent key @ ''='' @
                        encodeURIComponent (case map_of ps key of
                                               None \<Rightarrow> ''undefined'' | Some v \<Rightarrow> v))
                     (map fst ps))
         else url)"

text \<open>One parameter of the query string, as \<open>generateUrl\<close> and \<open>navigate\<close> write it.\<close>

definition query_pair :: "string \<times> string \<Rightarrow> string" where
  "query_pair kv = encodeURIComponent (fst kv) @ ''='' @ encodeURIComponent (snd kv)"

definition refresh :: "unit rio" where
  "refresh = bind_io (parseHash None) handleRouteChange"

text \<open>
  The browser after a request to \<open>window.location\<close>: it sets the fragment and, when the
  fragment has changed, fires the event whose listener (registered by \<open>init\<close>) parses
  the fragment and handles the change; an error thrown by the listener is lost. The
  requests are taken in order from position \<open>i\<close>, at most as many as the first argument.
\<close>

fun deliver :: "nat \<Rightarrow> nat \<Rightarrow> page \<Rightarrow> page" where
  "deliver 0 i st = st"
| "deliver (Suc n) i st =
     (if i < length (location_requests st) then
        let hash = (case location_requests st ! i of
                      location_replace h \<Rightarrow> h | location_assign h \<Rightarrow> h)
        in if hash = location_hash st then deliver n (Suc i) st
           else deliver n (Suc i) (snd (refresh (st\<lparr>location_hash := hash\<rparr>)))
      else st)"

section \<open>Concrete worlds for the examples\<close>

definition quiet_world :: world where
  "quiet_world = \<lparr>localStorage = [], storage_available = True, storage_full = False,
                   console = [], Date_now = 1000\<rparr>"

definition unreachable_world :: world where
  "unreachable_world = \<lparr>localStorage = [(''k'', JSON_text (JNum 5))], storage_available = False,
                         storage_full = False, console = [], Date_now = 1000\<rparr>"

definition full_world :: world where
  "full_world = \<lparr>localStorage = [(''k'', JSON_text (JNum 5)), (''g'', Other_text ''{oops'')],
                  storage_available = True, storage_full = True, console = [], Date_now = 1000\<rparr>"

definition snapshot_world :: "int \<Rightarrow> world" where
  "snapshot_world t = (snd (cachePosts (JArr [JNum 7]) quiet_world))\<lparr>Date_now := t\<rparr>"

definition ok_response :: "jsval \<Rightarrow> response result" where
  "ok_response v = Inr \<lparr>ok = True, status = 200, statusText = ''OK'', json = Inr v\<rparr>"

definition failed_response :: "response result" where
  "failed_response =
     Inr \<lparr>ok = False, status = 500, statusText = ''Internal Server Error'', json = Inr JNull\<rparr>"

definition edited_world :: world where
  "edited_world =
     snd (saveEditedPost 2 (JObj [(''title'', JStr ''X''), (''draft'', JBool True)]) quiet_world)"

definition proto_world :: world where
  "proto_world =
     snd (saveEditedPost 3 (JObj [(''__proto__'', JStr ''x''), (''title'', JStr ''b'')]) quiet_world)"

definition fresh_retry :: retry_state where
  "fresh_retry = \<lparr>calls = 0, timeouts = [], warnings = []\<rparr>"

text \<open>The routes and callbacks that the application registers, with handlers that return.\<close>

definition login_route :: route_definition where
  "login_route = \<lparr>handler = (\<lambda>ps previous. Inr JUndefined), requiresAuth = False,
                   title = ''Login'', param_names = []\<rparr>"

definition posts_route :: route_definition where
  "posts_route = \<lparr>handler = (\<lambda>ps previous. Inr JUndefined), requiresAuth = True,
                   title = ''Posts'', param_names = []\<rparr>"

definition app_routes :: "(string \<times> route_definition) list" where
  "app_routes =
     [(''login'', login_route),
      (''posts'', posts_route),
      (''detail'', \<lparr>handler = (\<lambda>ps previous. Inr JUndefined), requiresAuth = True,
                    title = ''Post Detail'', param_names = []\<rparr>),
      (''analytics'', \<lparr>handler = (\<lambda>ps previous. Inr JUndefined), requiresAuth = True,
                       title = ''Analytics'', param_names = []\<rparr>)]"

definition app_page :: "world \<Rightarrow> page" where
  "app_page w =
     \<lparr>routes = app_routes, currentRoute = None, defaultRoute = ''login'',
      beforeRouteChangeCallbacks = [\<lambda>current new. Inr (JBool True)],
      afterRouteChangeCallbacks = [\<lambda>current previous. Inr JUndefined],
      document_title = [], location_hash = [], location_requests = [], invoked = [], env = w\<rparr>"

definition session_world :: world where
  "session_world = snd (setUser (JObj [(''email'', JStr ''user@example.org'')]) quiet_world)"

text \<open>A page with a callback that vetoes, and one whose callbacks throw.\<close>

definition veto_page :: page where
  "veto_page = (app_page session_world)
     \<lparr>beforeRouteChangeCallbacks :=
        [\<lambda>current new. Inr (JBool True), \<lambda>current new. Inr (JBool False),
         \<lambda>current new. Inl (Error ''late'')]\<rparr>"

definition faulty_page :: page where
  "faulty_page = (app_page session_world)
     \<lparr>beforeRouteChangeCallbacks :=
        [\<lambda>current new. Inl (Error ''before''), \<lambda>current new. Inr JUndefined],
      afterRouteChangeCallbacks :=
        [\<lambda>current previous. Inl (Error ''after''), \<lambda>current previous. Inr JNull]\<rparr>"

definition to_posts :: route_info where
  "to_posts = \<lparr>path = ''posts'', params = []\<rparr>"

definition to_login :: route_info where
  "to_login = \<lparr>path = ''login'', params = []\<rparr>"

definition to_nowhere :: route_info where
  "to_nowhere = \<lparr>path = ''nowhere'', params = []\<rparr>"

text \<open>The application with a session stored, at a fragment that names no route.\<close>

definition lost_page :: page where
  "lost_page = (app_page session_world)\<lparr>location_hash := ''#nowhere''\<rparr>"

text \<open>Parameters with characters that are escaped, an empty value and a character beyond ASCII.\<close>

definition query_example :: "(string \<times> string) list" where
  "query_example =
     [(''id'', ''42''), (''q'', ''a b&c=d?e%f''), (''empty'', []),
      (''name'', [CHR ''c'', CHR 0xC3, CHR 0xA9])]"

section \<open>The storage service: what each operation does\<close>

lemmas io_defs = return_io_def throw_io_def lift_io_def bind_io_def try_catch_def log_io_def

lemma setItem_cases:
  "setItem key val w =
     (if \<not> stringifiable val then
        (Inr (), console_log (console_error ''Error saving to localStorage:'' TypeError) w)
      else if \<not> storage_available w then
        (Inr (), console_log (console_error ''Error saving to localStorage:'' SecurityError) w)
      else if storage_full w then
        (Inr (), console_log (console_error ''Error saving to localStorage:'' QuotaExceededError) w)
      else (Inr (), w\<lparr>localStorage :=
              AList.update key (if val = JUndefined then Other_text ''undefined''
                                else JSON_text (json_norm val)) (localStorage w)\<rparr>))"
  by (simp add: setItem_def io_defs JSON_stringify_def localStorage_setItem_def)

lemma getItem_cases:
  "getItem key w =
     (if \<not> storage_available w then
        (Inr JNull, console_log (console_error ''Error reading from localStorage:'' SecurityError) w)
      else case map_of (localStorage w) key of
          None \<Rightarrow> (Inr JNull, w)
        | Some (JSON_text v) \<Rightarrow> (Inr v, w)
        | Some (Other_text s) \<Rightarrow>
            if s = [] then (Inr JNull, w)
            else (Inr JNull, console_log (console_error ''Error reading from localStorage:'' SyntaxError) w))"
  by (simp add: getItem_def io_defs localStorage_getItem_def split: option.splits dom_string.splits)

lemma removeItem_cases:
  "removeItem key w =
     (if \<not> storage_available w then
        (Inr (), console_log (console_error ''Error removing from localStorage:'' SecurityError) w)
      else (Inr (), w\<lparr>localStorage := AList.delete key (localStorage w)\<rparr>))"
  by (simp add: removeItem_def io_defs localStorage_removeItem_def)

lemma clear_cases:
  "clear w =
     (if \<not> storage_available w then
        (Inr (), console_log (console_error ''Error clearing localStorage:'' SecurityError) w)
      else (Inr (), w\<lparr>localStorage := []\<rparr>))"
  by (simp add: clear_def io_defs localStorage_clear_def)

text \<open>
  C9. No operation of the key-value store throws to its caller: \<open>setItem\<close>,
  \<open>getItem\<close>, \<open>removeItem\<close> and \<open>clear\<close> return normally in every world, also when
  \<open>JSON.stringify\<close>, \<open>JSON.parse\<close> or \<open>localStorage\<close> throws. A \<open>setItem\<close> whose
  serialisation or write throws leaves the stored entries as they were, and a
  \<open>getItem\<close> whose read or parse throws returns \<open>null\<close>.
\<close>

theorem storage_never_throws:
  "fst (setItem key val w) = Inr ()
   \<and> (\<exists>v. fst (getItem key w) = Inr v)
   \<and> fst (removeItem key w) = Inr ()
   \<and> fst (clear w) = Inr ()
   \<and> ((\<exists>e. JSON_stringify val = Inl e) \<or> (\<exists>text e. fst (localStorage_setItem key text w) = Inl e)
        \<longrightarrow> localStorage (snd (setItem key val w)) = localStorage w)
   \<and> ((\<exists>e. fst (localStorage_getItem key w) = Inl e)
        \<or> (\<exists>t e. map_of (localStorage w) key = Some t \<and> nonempty_text t \<and> JSON_parse t = Inl e)
        \<longrightarrow> fst (getItem key w) = Inr JNull)"
proof (intro conjI)
  show "fst (setItem key val w) = Inr ()" by (simp add: setItem_cases)
  show "\<exists>v. fst (getItem key w) = Inr v"
    by (simp add: getItem_cases split: option.splits dom_string.splits)
  show "fst (removeItem key w) = Inr ()" by (simp add: removeItem_cases)
  show "fst (clear w) = Inr ()" by (simp add: clear_cases)
  show "(\<exists>e. JSON_stringify val = Inl e) \<or> (\<exists>text e. fst (localStorage_setItem key text w) = Inl e)
        \<longrightarrow> localStorage (snd (setItem key val w)) = localStorage w"
    by (auto simp add: setItem_cases JSON_stringify_def localStorage_setItem_def console_log_def
        split: if_splits)
  show "(\<exists>e. fst (localStorage_getItem key w) = Inl e)
        \<or> (\<exists>t e. map_of (localStorage w) key = Some t \<and> nonempty_text t \<and> JSON_parse t = Inl e)
        \<longrightarrow> fst (getItem key w) = Inr JNull"
    by (auto simp add: getItem_cases localStorage_getItem_def split: if_splits dom_string.splits)
qed

theorem storage_never_throws_witness:
  "fst (setItem ''k'' (JNum 6) full_world) = Inr ()
   \<and> localStorage (snd (setItem ''k'' (JNum 6) full_world)) = localStorage full_world
   \<and> fst (getItem ''g'' full_world) = Inr JNull
   \<and> fst (getItem ''k'' unreachable_world) = Inr JNull
   \<and> fst (removeItem ''k'' unreachable_world) = Inr ()
   \<and> fst (clear unreachable_world) = Inr ()"
proof -
  have set_fails: "\<exists>text e. fst (localStorage_setItem ''k'' text full_world) = Inl e"
    by (simp add: localStorage_setItem_def full_world_def)
  have parse_fails: "\<exists>t e. map_of (localStorage full_world) ''g'' = Some t \<and> nonempty_text t
                     \<and> JSON_parse t = Inl e"
    by (simp add: full_world_def)
  have read_fails: "\<exists>e. fst (localStorage_getItem ''k'' unreachable_world) = Inl e"
    by (simp add: localStorage_getItem_def unreachable_world_def)
  from storage_never_throws[of "''k''" "JNum 6" full_world] set_fails
  have a: "fst (setItem ''k'' (JNum 6) full_world) = Inr ()
           \<and> localStorage (snd (setItem ''k'' (JNum 6) full_world)) = localStorage full_world"
    by blast
  from storage_never_throws[of "''g''" JNull full_world] parse_fails
  have b: "fst (getItem ''g'' full_world) = Inr JNull"
    by blast
  from storage_never_throws[of "''k''" JNull unreachable_world] read_fails
  have c: "fst (getItem ''k'' unreachable_world) = Inr JNull
           \<and> fst (removeItem ''k'' unreachable_world) = Inr ()
           \<and> fst (clear unreachable_world) = Inr ()"
    by blast
  from a b c show ?thesis by simp
qed

section \<open>Envelopes written by the storage service\<close>

lemma json_norm_envelope:
  "is_json D \<Longrightarrow>
   json_norm (JObj [(''data'', D), (''timestamp'', JNum T)]) = JObj [(''data'', D), (''timestamp'', JNum T)]"
  by (simp add: is_json_def)

lemma stringifiable_envelope:
  "stringifiable (JObj [(''data'', D), (''timestamp'', JNum T)]) = stringifiable D"
  by simp


section \<open>The cache snapshot\<close>

lemma cachePosts_stores:
  assumes "storage_available w" "\<not> storage_full w" "is_json D"
  shows "map_of (localStorage (snd (cachePosts D w))) POSTS_CACHE_KEY =
           Some (JSON_text (JObj [(''data'', D), (''timestamp'', JNum (Date_now w))]))"
proof -
  have "stringifiable D" using assms(3) by (simp add: is_json_def)
  then show ?thesis
    using assms by (simp add: cachePosts_def setItem_cases json_norm_envelope update_conv'
        del: json_norm.simps stringifiable.simps add: stringifiable_envelope)
qed

lemma getCachedPosts_snapshot:
  assumes "map_of (localStorage w2) POSTS_CACHE_KEY =
             Some (JSON_text (JObj [(''data'', D), (''timestamp'', JNum T)]))"
    and "storage_available w2"
  shows "getCachedPosts w2 =
     (if Date_now w2 - T > 3600000
      then (Inr JNull, w2\<lparr>localStorage := AList.delete POSTS_CACHE_KEY (localStorage w2)\<rparr>)
      else (Inr D, w2))"
  using assms
  by (simp add: getCachedPosts_def bind_io_def return_io_def getItem_cases removeItem_cases)

text \<open>
  C3 (amended). A cache snapshot written at time \<open>T\<close> with JSON data \<open>D\<close>, into a store
  that takes the write, is returned unchanged by \<open>getCachedPosts\<close> at every time up to
  and including \<open>T\<close> + 1 hour; at every time after \<open>T\<close> + 1 hour the read returns
  \<open>null\<close> and removes the key \<open>posts_cache\<close> from the store.
\<close>

theorem cache_snapshot_ttl:
  assumes "storage_available w" "\<not> storage_full w" "is_json D"
    and "localStorage w2 = localStorage (snd (cachePosts D w))" "storage_available w2"
  shows "(Date_now w2 \<le> Date_now w + 3600000 \<longrightarrow> getCachedPosts w2 = (Inr D, w2))
       \<and> (Date_now w + 3600000 < Date_now w2 \<longrightarrow>
            fst (getCachedPosts w2) = Inr JNull
            \<and> map_of (localStorage (snd (getCachedPosts w2))) POSTS_CACHE_KEY = None)"
proof -
  have "map_of (localStorage w2) POSTS_CACHE_KEY =
          Some (JSON_text (JObj [(''data'', D), (''timestamp'', JNum (Date_now w))]))"
    using cachePosts_stores[OF assms(1,2,3)] assms(4) by simp
  from getCachedPosts_snapshot[OF this assms(5)]
  show ?thesis by (auto simp add: delete_conv')
qed

theorem cache_snapshot_ttl_witness:
  "getCachedPosts (snapshot_world 3601000) = (Inr (JArr [JNum 7]), snapshot_world 3601000)
   \<and> fst (getCachedPosts (snapshot_world 3601001)) = Inr JNull
   \<and> map_of (localStorage (snd (getCachedPosts (snapshot_world 3601001)))) POSTS_CACHE_KEY = None"
proof -
  have h: "storage_available quiet_world" "\<not> storage_full quiet_world" "is_json (JArr [JNum 7])"
    by (simp_all add: quiet_world_def is_json_def)
  have s: "localStorage (snapshot_world t) = localStorage (snd (cachePosts (JArr [JNum 7]) quiet_world))"
      "storage_available (snapshot_world t)" "Date_now (snapshot_world t) = t" for t
    by (simp_all add: snapshot_world_def quiet_world_def cachePosts_def setItem_cases)
  have n: "Date_now quiet_world = 1000" by (simp add: quiet_world_def)
  from cache_snapshot_ttl[OF h s(1,2), of 3601000] cache_snapshot_ttl[OF h s(1,2), of 3601001]
  show ?thesis by (simp add: s(3) n)
qed

text \<open>
  At exactly \<open>T\<close> + 1 hour the snapshot is still served and still stored: the test of the
  source is \<open>Date.now() - cache.timestamp > oneHour\<close>.
\<close>

theorem cache_snapshot_ttl_counterexample:
  "Date_now quiet_world + 3600000 \<le> Date_now (snapshot_world 3601000)
   \<and> fst (getCachedPosts (snapshot_world 3601000)) = Inr (JArr [JNum 7])
   \<and> map_of (localStorage (snd (getCachedPosts (snapshot_world 3601000)))) POSTS_CACHE_KEY \<noteq> None"
  by (simp add: snapshot_world_def quiet_world_def cachePosts_def setItem_cases getCachedPosts_def
      bind_io_def return_io_def getItem_cases POSTS_CACHE_KEY_def)

section \<open>Updating a post\<close>

lemma saveEditedPost_returns: "fst (saveEditedPost postId postData w) = Inr ()"
  by (simp add: saveEditedPost_def Let_def setItem_cases del: stringifiable.simps json_norm.simps)

lemma saveEditedPost_stores:
  assumes "storage_available w" "\<not> storage_full w" "is_json postData"
  shows "map_of (localStorage (snd (saveEditedPost postId postData w)))
           (EDITED_POST_PREFIX @ number_to_string postId) =
           Some (JSON_text (JObj [(''data'', postData), (''timestamp'', JNum (Date_now w))]))"
    and "storage_available (snd (saveEditedPost postId postData w))"
proof -
  have s: "stringifiable postData" using assms(3) by (simp add: is_json_def)
  show "map_of (localStorage (snd (saveEditedPost postId postData w)))
           (EDITED_POST_PREFIX @ number_to_string postId) =
           Some (JSON_text (JObj [(''data'', postData), (''timestamp'', JNum (Date_now w))]))"
    using assms s by (simp add: saveEditedPost_def Let_def setItem_cases json_norm_envelope update_conv'
        stringifiable_envelope del: json_norm.simps stringifiable.simps)
  show "storage_available (snd (saveEditedPost postId postData w))"
    using assms s by (simp add: saveEditedPost_def Let_def setItem_cases
        stringifiable_envelope del: json_norm.simps stringifiable.simps)
qed

lemma getEditedPost_envelope:
  assumes "map_of (localStorage w) (EDITED_POST_PREFIX @ number_to_string postId) =
             Some (JSON_text (JObj [(''data'', D), (''timestamp'', JNum T)]))"
    and "storage_available w"
  shows "getEditedPost postId w = (Inr D, w)"
  using assms by (simp add: getEditedPost_def Let_def bind_io_def return_io_def getItem_cases)

lemma makeRequest_frame:
  "localStorage (snd (makeRequest fetched w)) = localStorage w"
  "storage_available (snd (makeRequest fetched w)) = storage_available w"
  "storage_full (snd (makeRequest fetched w)) = storage_full w"
  "Date_now (snd (makeRequest fetched w)) = Date_now w"
  by (auto simp add: makeRequest_def io_defs console_log_def split: sum.splits prod.splits)

lemma updatePost_cases:
  assumes "stringifiable postData"
  shows "updatePost postId postData fetched w =
    (case makeRequest fetched w of
       (Inr response, w1) \<Rightarrow>
          (Inr response, console_log (console_info ''Post updated locally:'' (JNum postId))
                            (snd (saveEditedPost postId postData w1)))
     | (Inl error, w1) \<Rightarrow>
          (Inr postData, console_log (console_info ''Post saved locally due to API error:'' (JNum postId))
                            (snd (saveEditedPost postId postData w1))))"
proof -
  obtain t where t: "JSON_stringify postData = Inr t"
    using assms by (cases "postData = JUndefined") (simp_all add: JSON_stringify_def)
  obtain r w1 where m: "makeRequest fetched w = (r, w1)" by (cases "makeRequest fetched w")
  obtain w2 where s: "saveEditedPost postId postData w1 = (Inr (), w2)"
    using saveEditedPost_returns[of postId postData w1]
    by (cases "saveEditedPost postId postData w1") auto
  show ?thesis
    by (cases r) (simp_all add: updatePost_def io_defs t m s)
qed

text \<open>
  C4 (amended). For every id and every data that \<open>JSON.stringify\<close> accepts, \<open>updatePost\<close>
  never fails to its caller: it resolves with the reply of the remote call when that
  call succeeds, and with the data when it fails. In both cases, when the store can be
  written (reachable, not at its quota) and the data is JSON data, the data is the edit
  overlay of the id afterwards: \<open>getEditedPost\<close> returns it.
\<close>

theorem updatePost_resolves:
  assumes "stringifiable postData"
  shows "fst (updatePost postId postData fetched w) =
           Inr (case fst (makeRequest fetched w) of Inr response \<Rightarrow> response | Inl error \<Rightarrow> postData)
       \<and> (storage_available w \<and> \<not> storage_full w \<and> is_json postData \<longrightarrow>
            fst (getEditedPost postId (snd (updatePost postId postData fetched w))) = Inr postData)"
proof (intro conjI impI)
  show "fst (updatePost postId postData fetched w) =
           Inr (case fst (makeRequest fetched w) of Inr response \<Rightarrow> response | Inl error \<Rightarrow> postData)"
    by (simp add: updatePost_cases[OF assms] split: prod.splits sum.splits)
next
  assume a: "storage_available w \<and> \<not> storage_full w \<and> is_json postData"
  obtain r w1 where m: "makeRequest fetched w = (r, w1)" by (cases "makeRequest fetched w")
  have w1: "storage_available w1" "\<not> storage_full w1"
    using makeRequest_frame[of fetched w] a m by simp_all
  let ?w2 = "snd (saveEditedPost postId postData w1)"
  have st: "map_of (localStorage ?w2) (EDITED_POST_PREFIX @ number_to_string postId) =
           Some (JSON_text (JObj [(''data'', postData), (''timestamp'', JNum (Date_now w1))]))"
    and av: "storage_available ?w2"
    using saveEditedPost_stores[OF w1] a by simp_all
  have "\<exists>c. snd (updatePost postId postData fetched w) = console_log c ?w2"
    by (cases r) (auto simp add: updatePost_cases[OF assms] m)
  then obtain c where u: "snd (updatePost postId postData fetched w) = console_log c ?w2" by blast
  have "getEditedPost postId (console_log c ?w2) = (Inr postData, console_log c ?w2)"
    by (rule getEditedPost_envelope[where T = "Date_now w1"])
       (simp_all add: console_log_def st av)
  then show "fst (getEditedPost postId (snd (updatePost postId postData fetched w))) = Inr postData"
    by (simp add: u)
qed

theorem updatePost_resolves_witness:
  "fst (updatePost 1 (JObj [(''title'', JStr ''x'')]) (ok_response (JObj [(''id'', JNum 1)])) quiet_world)
     = Inr (JObj [(''id'', JNum 1)])
   \<and> fst (updatePost 1 (JObj [(''title'', JStr ''x'')]) failed_response quiet_world)
     = Inr (JObj [(''title'', JStr ''x'')])
   \<and> fst (getEditedPost 1 (snd (updatePost 1 (JObj [(''title'', JStr ''x'')]) failed_response quiet_world)))
     = Inr (JObj [(''title'', JStr ''x'')])"
proof -
  have s: "stringifiable (JObj [(''title'', JStr ''x'')])" by simp
  have j: "storage_available quiet_world \<and> \<not> storage_full quiet_world
           \<and> is_json (JObj [(''title'', JStr ''x'')])"
    by (simp add: quiet_world_def is_json_def)
  have m1: "fst (makeRequest (ok_response (JObj [(''id'', JNum 1)])) quiet_world) = Inr (JObj [(''id'', JNum 1)])"
    by (simp add: makeRequest_def io_defs ok_response_def)
  obtain e where m2: "fst (makeRequest failed_response quiet_world) = Inl e"
    by (simp add: makeRequest_def io_defs failed_response_def)
  from updatePost_resolves[OF s, of 1 "ok_response (JObj [(''id'', JNum 1)])" quiet_world]
       updatePost_resolves[OF s, of 1 failed_response quiet_world] j
  show ?thesis by (simp add: m1 m2)
qed

text \<open>
  When the remote call succeeds, the promise resolves with the reply of the remote, which
  need not be the data that was saved; and when the store is at its quota, nothing is
  saved.
\<close>

theorem updatePost_resolves_counterexample:
  "fst (updatePost 1 (JObj [(''title'', JStr ''x'')]) (ok_response (JObj [(''id'', JNum 1)])) quiet_world)
     \<noteq> Inr (JObj [(''title'', JStr ''x'')])
   \<and> fst (getEditedPost 1 (snd (updatePost 1 (JObj [(''title'', JStr ''x'')]) failed_response full_world)))
     \<noteq> Inr (JObj [(''title'', JStr ''x'')])"
  by (simp add: updatePost_cases makeRequest_def io_defs ok_response_def failed_response_def
      saveEditedPost_def setItem_cases getEditedPost_def getItem_cases console_log_def
      full_world_def quiet_world_def EDITED_POST_PREFIX_def number_to_string_def)

section \<open>Merging a record with its edit overlay\<close>

lemma foldl_obj_set:
  "k \<noteq> ''__proto__'' \<Longrightarrow>
   map_of (foldl (\<lambda>t kv. obj_set t (fst kv) (snd kv)) t kvs) k =
     (case map_of (rev kvs) k of Some v \<Rightarrow> Some v | None \<Rightarrow> map_of t k)"
proof (induction kvs arbitrary: t)
  case Nil
  then show ?case by simp
next
  case (Cons kv kvs)
  then show ?case
    by (auto simp add: obj_set_def update_conv' map_add_def split: option.splits)
qed

lemma map_of_rev_distinct: "distinct (map fst kvs) \<Longrightarrow> map_of (rev kvs) = map_of kvs"
  by (rule map_of_inject_set[THEN iffD2]) (simp_all add: distinct_rev rev_map[symmetric])

lemma foldl_obj_set_proto:
  "map_of (foldl (\<lambda>t kv. obj_set t (fst kv) (snd kv)) t kvs) ''__proto__'' = map_of t ''__proto__''"
  by (induction kvs arbitrary: t) (simp_all add: obj_set_def update_conv')

text \<open>
  C2 (amended). For a canonical record and a stored overlay object that have no key
  \<open>__proto__\<close>, \<open>getPostWithEdits\<close> returns a record that has, for each key, the
  overlay's value when the overlay has the key and the canonical record's value when it
  has not (and that has the key only when one of the two has it). When no overlay is
  stored for the id (\<open>getEditedPost\<close> returns \<open>null\<close>), the canonical record is
  returned unchanged.
\<close>

theorem getPostWithEdits_merges:
  "(fst (getEditedPost postId w) = Inr (JObj overlay)
      \<and> distinct (map fst canonical) \<and> distinct (map fst overlay)
      \<and> ''__proto__'' \<notin> fst ` set canonical \<and> ''__proto__'' \<notin> fst ` set overlay \<longrightarrow>
      (\<exists>merged. fst (getPostWithEdits postId (Inr (JObj canonical)) w) = Inr (JObj merged)
         \<and> (\<forall>k. map_of merged k = (case map_of overlay k of Some v \<Rightarrow> Some v
                                    | None \<Rightarrow> map_of canonical k))))
   \<and> (fst (getEditedPost postId w) = Inr JNull \<longrightarrow>
        fst (getPostWithEdits postId (Inr original) w) = Inr original)"
proof (intro conjI impI)
  assume a: "fst (getEditedPost postId w) = Inr (JObj overlay)
      \<and> distinct (map fst canonical) \<and> distinct (map fst overlay)
      \<and> ''__proto__'' \<notin> fst ` set canonical \<and> ''__proto__'' \<notin> fst ` set overlay"
  obtain w' where g: "getEditedPost postId w = (Inr (JObj overlay), w')"
    using a by (cases "getEditedPost postId w") auto
  define merged where "merged =
     foldl (\<lambda>t source. foldl (\<lambda>t' kv. obj_set t' (fst kv) (snd kv)) t (own_entries source))
       [] [JObj canonical, JObj overlay]"
  have r: "fst (getPostWithEdits postId (Inr (JObj canonical)) w) = Inr (JObj merged)"
    by (simp add: getPostWithEdits_def io_defs g Object_assign_def merged_def)
  have none: "map_of overlay ''__proto__'' = None" "map_of canonical ''__proto__'' = None"
    using a by (simp_all add: map_of_eq_None_iff)
  have "map_of merged k = (case map_of overlay k of Some v \<Rightarrow> Some v | None \<Rightarrow> map_of canonical k)"
    for k
  proof (cases "k = ''__proto__''")
    case True
    then show ?thesis by (simp add: merged_def foldl_obj_set_proto none)
  next
    case False
    then show ?thesis
      using a by (simp add: merged_def foldl_obj_set map_of_rev_distinct split: option.splits)
  qed
  with r show "\<exists>merged. fst (getPostWithEdits postId (Inr (JObj canonical)) w) = Inr (JObj merged)
         \<and> (\<forall>k. map_of merged k = (case map_of overlay k of Some v \<Rightarrow> Some v
                                    | None \<Rightarrow> map_of canonical k))"
    by blast
next
  assume "fst (getEditedPost postId w) = Inr JNull"
  then obtain w' where g: "getEditedPost postId w = (Inr JNull, w')"
    by (cases "getEditedPost postId w") auto
  show "fst (getPostWithEdits postId (Inr original) w) = Inr original"
    by (simp add: getPostWithEdits_def io_defs g)
qed

theorem getPostWithEdits_merges_witness:
  "(\<exists>merged. fst (getPostWithEdits 2 (Inr (JObj [(''id'', JNum 2), (''title'', JStr ''a'')])) edited_world)
        = Inr (JObj merged)
      \<and> map_of merged ''title'' = Some (JStr ''X'')
      \<and> map_of merged ''id'' = Some (JNum 2)
      \<and> map_of merged ''draft'' = Some (JBool True))
   \<and> fst (getPostWithEdits 1 (Inr (JObj [(''id'', JNum 1)])) edited_world) = Inr (JObj [(''id'', JNum 1)])"
proof -
  have e2: "fst (getEditedPost 2 edited_world) = Inr (JObj [(''title'', JStr ''X''), (''draft'', JBool True)])"
    by (simp add: edited_world_def quiet_world_def saveEditedPost_def setItem_cases getEditedPost_def
        getItem_cases io_defs)
  have e1: "fst (getEditedPost 1 edited_world) = Inr JNull"
    by (simp add: edited_world_def quiet_world_def saveEditedPost_def setItem_cases getEditedPost_def
        getItem_cases io_defs EDITED_POST_PREFIX_def number_to_string_def)
  have d: "distinct (map fst [(''id'', JNum 2), (''title'', JStr ''a'')])
           \<and> distinct (map fst [(''title'', JStr ''X''), (''draft'', JBool True)])
           \<and> ''__proto__'' \<notin> fst ` set [(''id'', JNum 2), (''title'', JStr ''a'')]
           \<and> ''__proto__'' \<notin> fst ` set [(''title'', JStr ''X''), (''draft'', JBool True)]"
    by simp
  from getPostWithEdits_merges[of 2 edited_world "[(''title'', JStr ''X''), (''draft'', JBool True)]"
         "[(''id'', JNum 2), (''title'', JStr ''a'')]"] e2 d
  obtain merged where m:
    "fst (getPostWithEdits 2 (Inr (JObj [(''id'', JNum 2), (''title'', JStr ''a'')])) edited_world)
        = Inr (JObj merged)"
    "\<forall>k. map_of merged k = (case map_of [(''title'', JStr ''X''), (''draft'', JBool True)] k of
                                Some v \<Rightarrow> Some v
                              | None \<Rightarrow> map_of [(''id'', JNum 2), (''title'', JStr ''a'')] k)"
    by blast
  have "map_of merged ''title'' = Some (JStr ''X'')" "map_of merged ''id'' = Some (JNum 2)"
       "map_of merged ''draft'' = Some (JBool True)"
    using m(2) by simp_all
  moreover have "fst (getPostWithEdits 1 (Inr (JObj [(''id'', JNum 1)])) edited_world)
                   = Inr (JObj [(''id'', JNum 1)])"
    using getPostWithEdits_merges[of 1 edited_world "[]" "[]" "JObj [(''id'', JNum 1)]"] e1 by blast
  ultimately show ?thesis using m(1) by blast
qed

text \<open>
  An overlay that has the key \<open>__proto__\<close> does not pass it on: the assignment made by
  \<open>Object.assign\<close> reaches the inherited setter and the merged record gets no such
  property.
\<close>

theorem getPostWithEdits_merges_counterexample:
  "fst (getEditedPost 3 proto_world) = Inr (JObj [(''__proto__'', JStr ''x''), (''title'', JStr ''b'')])
   \<and> fst (getPostWithEdits 3 (Inr (JObj [(''id'', JNum 3), (''title'', JStr ''a'')])) proto_world)
       = Inr (JObj [(''id'', JNum 3), (''title'', JStr ''b'')])
   \<and> map_of [(''id'', JNum 3), (''title'', JStr ''b'')] ''__proto__''
       \<noteq> map_of [(''__proto__'', JStr ''x''), (''title'', JStr ''b'')] ''__proto__''"
  by (simp add: proto_world_def quiet_world_def saveEditedPost_def setItem_cases getEditedPost_def
      getItem_cases io_defs getPostWithEdits_def Object_assign_def obj_set_def)

section \<open>Retrying a request\<close>

text \<open>
  C7. Against a request that fails at every call, \<open>retryRequest\<close> with a bound that is
  omitted or not negative never settles: whatever number \<open>n\<close> of calls is looked at, the
  promise is still pending after them and the request function has been called \<open>n\<close>
  times. (Each call turns a bound of 0 into 3 before it tests it.)
\<close>

theorem retryRequest_never_gives_up:
  assumes "\<forall>i. \<exists>e. requestFn i = Inl e"
    and "case maxRetries of None \<Rightarrow> True | Some m \<Rightarrow> 0 \<le> m"
  shows "fst (retryRequest n requestFn maxRetries delay st) = None
       \<and> calls (snd (retryRequest n requestFn maxRetries delay st)) = calls st + n"
  using assms(2)
proof (induction n arbitrary: maxRetries delay st)
  case 0
  then show ?case by simp
next
  case (Suc n)
  obtain e where e: "requestFn (calls st) = Inl e" using assms(1) by blast
  have pos: "0 < or_default maxRetries 3"
    using Suc.prems by (auto simp add: or_default_def split: option.splits)
  let ?st = "st\<lparr>calls := calls st + 1\<rparr>\<lparr>timeouts := timeouts (st\<lparr>calls := calls st + 1\<rparr>) @ [or_default delay 1000],
                         warnings := warnings (st\<lparr>calls := calls st + 1\<rparr>) @
                           [console_warn (''Request failed, retrying in ''
                              @ number_to_string (or_default delay 1000) @ ''ms. Retries left:'') (JNum (or_default maxRetries 3))]\<rparr>"
  have step: "retryRequest (Suc n) requestFn maxRetries delay st =
      retryRequest n requestFn (Some (or_default maxRetries 3 - 1)) (Some (or_default delay 1000 * 2)) ?st"
    using e pos by (simp add: Let_def)
  have "case Some (or_default maxRetries 3 - 1) of None \<Rightarrow> True | Some m \<Rightarrow> 0 \<le> m"
    using pos by simp
  from Suc.IH[OF this, of "Some (or_default delay 1000 * 2)" ?st] step
  show ?case by simp
qed

theorem retryRequest_never_gives_up_witness:
  "fst (retryRequest 10 (\<lambda>i. Inl (Error ''offline'')) (Some 2) (Some 1000) fresh_retry) = None
   \<and> calls (snd (retryRequest 10 (\<lambda>i. Inl (Error ''offline'')) (Some 2) (Some 1000) fresh_retry)) = 10"
proof -
  have a: "\<forall>i::nat. \<exists>e. (Inl (Error ''offline'') :: jsval result) = Inl e" by simp
  have b: "case Some (2::int) of None \<Rightarrow> True | Some m \<Rightarrow> 0 \<le> m" by simp
  from retryRequest_never_gives_up[OF a b, of 10 "Some 1000" fresh_retry]
  show ?thesis by (simp add: fresh_retry_def)
qed

section \<open>The router: the callbacks before a change\<close>

lemma console_io_eq: "console_io c st = (Inr (), st\<lparr>env := console_log c (env st)\<rparr>)"
  by (simp add: console_io_def in_env_def log_io_def)

lemma isAuthenticated_eq:
  "isAuthenticated st = (fst (isLoggedIn (env st)), st\<lparr>env := snd (isLoggedIn (env st))\<rparr>)"
  by (simp add: isAuthenticated_def in_env_def split: prod.splits)

lemma navigate_empty:
  "navigate p [] True st =
     (Inr (), st\<lparr>location_requests := location_requests st @ [location_replace (''#'' @ p)]\<rparr>)"
  by (simp add: navigate_def)

lemma run_before_frame:
  "currentRoute (snd (run_before cbs i ri can st)) = currentRoute st"
  "document_title (snd (run_before cbs i ri can st)) = document_title st"
  "location_requests (snd (run_before cbs i ri can st)) = location_requests st"
  "afterRouteChangeCallbacks (snd (run_before cbs i ri can st)) = afterRouteChangeCallbacks st"
  by (induction cbs arbitrary: i can st; simp add: note_invoked_def console_io_eq split: sum.splits)+

lemma run_before_invoked:
  "invoked (snd (run_before cbs i ri can st)) = invoked st @ map Before_callback [i..<i + length cbs]"
proof (induction cbs arbitrary: i can st)
  case Nil
  then show ?case by simp
next
  case (Cons cb cbs)
  have "[i..<i + Suc (length cbs)] = i # [Suc i..<Suc i + length cbs]"
    by (subst upt_rec) simp
  then show ?case
    using Cons.IH by (simp add: note_invoked_def console_io_eq split: sum.splits)
qed

lemma run_before_verdict:
  "fst (run_before cbs i ri can st) =
     (can \<and> (\<forall>cb \<in> set cbs. cb (currentRoute st) ri \<noteq> Inr (JBool False)))"
proof (induction cbs arbitrary: i can st)
  case Nil
  then show ?case by simp
next
  case (Cons cb cbs)
  show ?case
  proof (cases "cb (currentRoute st) ri")
    case (Inl e)
    then show ?thesis
      using Cons.IH by (simp add: note_invoked_def console_io_eq)
  next
    case (Inr v)
    then show ?thesis
      using Cons.IH by (auto simp add: note_invoked_def)
  qed
qed

lemma run_before_console_mono:
  "set (console (env st)) \<subseteq> set (console (env (snd (run_before cbs i ri can st))))"
proof (induction cbs arbitrary: i can st)
  case Nil
  then show ?case by simp
next
  case (Cons cb cbs)
  show ?case
  proof (cases "cb (currentRoute st) ri")
    case (Inl e)
    let ?st = "snd (console_io (console_error ''Error in before route change callback:'' e)
                    (note_invoked (Before_callback i) st))"
    have "set (console (env st)) \<subseteq> set (console (env ?st))"
      by (auto simp add: console_io_eq note_invoked_def console_log_def)
    also have "\<dots> \<subseteq> set (console (env (snd (run_before cbs (Suc i) ri can ?st))))"
      by (rule Cons.IH)
    finally show ?thesis using Inl by simp
  next
    case (Inr v)
    have "set (console (env st)) = set (console (env (note_invoked (Before_callback i) st)))"
      by (simp add: note_invoked_def)
    also have "\<dots> \<subseteq> set (console (env (snd (run_before cbs (Suc i) ri
                   (if v = JBool False then False else can) (note_invoked (Before_callback i) st)))))"
      by (rule Cons.IH)
    finally show ?thesis using Inr by simp
  qed
qed

lemma run_before_logs:
  assumes "cb \<in> set cbs" "cb (currentRoute st) ri = Inl e"
  shows "console_error ''Error in before route change callback:'' e
           \<in> set (console (env (snd (run_before cbs i ri can st))))"
  using assms
proof (induction cbs arbitrary: i can st)
  case Nil
  then show ?case by simp
next
  case (Cons c cbs)
  show ?case
  proof (cases "c (currentRoute st) ri")
    case (Inl e')
    let ?st = "snd (console_io (console_error ''Error in before route change callback:'' e')
                    (note_invoked (Before_callback i) st))"
    have cur: "currentRoute ?st = currentRoute st"
      by (simp add: console_io_eq note_invoked_def)
    show ?thesis
    proof (cases "cb = c")
      case True
      then have "e' = e" using Inl Cons.prems by simp
      then have "console_error ''Error in before route change callback:'' e \<in> set (console (env ?st))"
        by (simp add: console_io_eq note_invoked_def console_log_def)
      with run_before_console_mono[of ?st cbs "Suc i" ri can] show ?thesis using Inl by auto
    next
      case False
      then have "cb \<in> set cbs" using Cons.prems by simp
      from Cons.IH[OF this, of ?st "Suc i" can] Cons.prems(2) cur Inl show ?thesis by simp
    qed
  next
    case (Inr v)
    let ?st = "note_invoked (Before_callback i) st"
    have cur: "currentRoute ?st = currentRoute st" by (simp add: note_invoked_def)
    have "cb \<noteq> c" using Inr Cons.prems by auto
    then have "cb \<in> set cbs" using Cons.prems by simp
    from Cons.IH[OF this, of ?st "Suc i"] Cons.prems(2) cur Inr show ?thesis by simp
  qed
qed

subsection \<open>The callbacks after a change\<close>

lemma run_after_frame:
  "currentRoute (run_after cbs i cur prev st) = currentRoute st"
  "document_title (run_after cbs i cur prev st) = document_title st"
  "location_requests (run_after cbs i cur prev st) = location_requests st"
  by (induction cbs arbitrary: i st; simp add: note_invoked_def console_io_eq split: sum.splits)+

lemma run_after_invoked:
  "invoked (run_after cbs i cur prev st) = invoked st @ map After_callback [i..<i + length cbs]"
proof (induction cbs arbitrary: i st)
  case Nil
  then show ?case by simp
next
  case (Cons cb cbs)
  have "[i..<i + Suc (length cbs)] = i # [Suc i..<Suc i + length cbs]"
    by (subst upt_rec) simp
  then show ?case
    using Cons.IH by (simp add: note_invoked_def console_io_eq split: sum.splits)
qed

lemma run_after_console_mono:
  "set (console (env st)) \<subseteq> set (console (env (run_after cbs i cur prev st)))"
proof (induction cbs arbitrary: i st)
  case Nil
  then show ?case by simp
next
  case (Cons cb cbs)
  show ?case
  proof (cases "cb cur prev")
    case (Inl e)
    let ?st = "snd (console_io (console_error ''Error in after route change callback:'' e)
                    (note_invoked (After_callback i) st))"
    have "set (console (env st)) \<subseteq> set (console (env ?st))"
      by (auto simp add: console_io_eq note_invoked_def console_log_def)
    also have "\<dots> \<subseteq> set (console (env (run_after cbs (Suc i) cur prev ?st)))"
      by (rule Cons.IH)
    finally show ?thesis using Inl by simp
  next
    case (Inr v)
    have "set (console (env st)) = set (console (env (note_invoked (After_callback i) st)))"
      by (simp add: note_invoked_def)
    also have "\<dots> \<subseteq> set (console (env (run_after cbs (Suc i) cur prev
                                                (note_invoked (After_callback i) st))))"
      by (rule Cons.IH)
    finally show ?thesis using Inr by simp
  qed
qed

lemma run_after_logs:
  assumes "cb \<in> set cbs" "cb cur prev = Inl e"
  shows "console_error ''Error in after route change callback:'' e
           \<in> set (console (env (run_after cbs i cur prev st)))"
  using assms
proof (induction cbs arbitrary: i st)
  case Nil
  then show ?case by simp
next
  case (Cons c cbs)
  show ?case
  proof (cases "c cur prev")
    case (Inl e')
    let ?st = "snd (console_io (console_error ''Error in after route change callback:'' e')
                    (note_invoked (After_callback i) st))"
    show ?thesis
    proof (cases "cb = c")
      case True
      then have "e' = e" using Inl Cons.prems by simp
      then have "console_error ''Error in after route change callback:'' e \<in> set (console (env ?st))"
        by (simp add: console_io_eq note_invoked_def console_log_def)
      with run_after_console_mono[of ?st cbs "Suc i" cur prev] show ?thesis using Inl by auto
    next
      case False
      then have "cb \<in> set cbs" using Cons.prems by simp
      from Cons.IH[OF this Cons.prems(2), of "Suc i" ?st] Inl show ?thesis by simp
    qed
  next
    case (Inr v)
    have "cb \<noteq> c" using Inr Cons.prems by auto
    then have "cb \<in> set cbs" using Cons.prems by simp
    from Cons.IH[OF this Cons.prems(2), of "Suc i" "note_invoked (After_callback i) st"] Inr
    show ?thesis by simp
  qed
qed

subsection \<open>The branches of a route change\<close>

lemma isLoggedIn_eq:
  "isLoggedIn w = (Inr (fst (getItem USER_SESSION_KEY w) \<noteq> Inr JNull), snd (getItem USER_SESSION_KEY w))"
  by (simp add: isLoggedIn_def getUser_def io_defs getItem_cases
      split: option.splits dom_string.splits)

lemma getItem_again: "fst (getItem k (snd (getItem k w))) = fst (getItem k w)"
  by (simp add: getItem_cases console_log_def split: option.splits dom_string.splits)

lemma isLoggedIn_again: "fst (isLoggedIn (snd (isLoggedIn w))) = fst (isLoggedIn w)"
  by (simp add: isLoggedIn_eq getItem_again)

lemma handleRouteChange_not_found:
  assumes "routes_get (routes st) (path ri) = None"
  shows "handleRouteChange ri st =
           (Inr (), st\<lparr>env := console_log (console_warn ''Route not found:'' (JStr (path ri))) (env st),
                       location_requests := location_requests st
                          @ [location_replace (''#'' @ defaultRoute st)]\<rparr>)"
  using assms by (simp add: handleRouteChange_def bind_io_def console_io_eq navigate_empty)

lemma handleRouteChange_refused:
  assumes "routes_get (routes st) (path ri) = Some rt" "ref_requiresAuth rt"
    "fst (isLoggedIn (env st)) = Inr False"
  shows "handleRouteChange ri st =
           (Inr (), st\<lparr>env := console_log (console_warn ''Route requires authentication:''
                                 (JStr (path ri))) (snd (isLoggedIn (env st))),
                       location_requests := location_requests st @ [location_replace ''#login'']\<rparr>)"
  using assms
  by (simp add: handleRouteChange_def bind_io_def return_io_def console_io_eq navigate_empty
      isAuthenticated_eq)

lemma handleRouteChange_login:
  assumes "routes_get (routes st) (path ri) = Some rt" "path ri = ''login''"
    "fst (isLoggedIn (env st)) = Inr True"
  shows "\<exists>w'. handleRouteChange ri st =
           (Inr (), st\<lparr>env := w',
                       location_requests := location_requests st @ [location_replace ''#posts'']\<rparr>)"
proof (cases "ref_requiresAuth rt")
  case True
  with assms have "handleRouteChange ri st =
           (Inr (), st\<lparr>env := snd (isLoggedIn (snd (isLoggedIn (env st)))),
                       location_requests := location_requests st @ [location_replace ''#posts'']\<rparr>)"
    by (simp add: handleRouteChange_def bind_io_def return_io_def navigate_empty
        isAuthenticated_eq isLoggedIn_again)
  then show ?thesis by (rule exI)
next
  case False
  with assms have "handleRouteChange ri st =
           (Inr (), st\<lparr>env := snd (isLoggedIn (env st)),
                       location_requests := location_requests st @ [location_replace ''#posts'']\<rparr>)"
    by (simp add: handleRouteChange_def bind_io_def return_io_def navigate_empty
        isAuthenticated_eq)
  then show ?thesis by (rule exI)
qed

lemma handleRouteChange_proceeds:
  assumes "routes_get (routes st) (path ri) = Some rt"
    and "ref_requiresAuth rt \<longrightarrow> fst (isLoggedIn (env st)) = Inr True"
    and "path ri = ''login'' \<longrightarrow> fst (isLoggedIn (env st)) = Inr False"
  shows "\<exists>w'. handleRouteChange ri st = change_route rt ri (st\<lparr>env := w'\<rparr>)"
proof (cases "ref_requiresAuth rt")
  case True
  show ?thesis
  proof (cases "path ri = ''login''")
    case True
    with \<open>ref_requiresAuth rt\<close> assms show ?thesis by simp
  next
    case False
    with True assms have "handleRouteChange ri st = change_route rt ri (st\<lparr>env := snd (isLoggedIn (env st))\<rparr>)"
      by (simp add: handleRouteChange_def bind_io_def return_io_def isAuthenticated_eq)
    then show ?thesis by (rule exI)
  qed
next
  case False
  show ?thesis
  proof (cases "path ri = ''login''")
    case True
    with False assms have "handleRouteChange ri st = change_route rt ri (st\<lparr>env := snd (isLoggedIn (env st))\<rparr>)"
      by (simp add: handleRouteChange_def bind_io_def return_io_def isAuthenticated_eq)
    then show ?thesis by (rule exI)
  next
    case nl: False
    with False assms have "handleRouteChange ri st = change_route rt ri (st\<lparr>env := env st\<rparr>)"
      by (simp add: handleRouteChange_def bind_io_def return_io_def)
    then show ?thesis by (rule exI)
  qed
qed

lemma change_route_cancelled:
  assumes "\<exists>cb \<in> set (beforeRouteChangeCallbacks st). cb (currentRoute st) ri = Inr (JBool False)"
  shows "change_route rt ri st = (Inr (), snd (run_before (beforeRouteChangeCallbacks st) 0 ri True st))"
proof -
  obtain st2 where rb: "run_before (beforeRouteChangeCallbacks st) 0 ri True st = (False, st2)"
    using assms run_before_verdict[of "beforeRouteChangeCallbacks st" 0 ri True st]
    by (cases "run_before (beforeRouteChangeCallbacks st) 0 ri True st") auto
  show ?thesis
    by (simp add: change_route_def rb)
qed

lemma note_handler_invoked: "invoked (note_handler rt p st) = invoked st @ handler_calls rt p"
  by (cases rt) (simp_all add: handler_calls_def note_invoked_def)

lemma note_handler_frame:
  "afterRouteChangeCallbacks (note_handler rt p st) = afterRouteChangeCallbacks st"
  "currentRoute (note_handler rt p st) = currentRoute st"
  "document_title (note_handler rt p st) = document_title st"
  "location_requests (note_handler rt p st) = location_requests st"
  "env (note_handler rt p st) = env st"
  by (cases rt; simp add: note_invoked_def)+

lemma change_route_commits:
  assumes "\<forall>cb \<in> set (beforeRouteChangeCallbacks st). cb (currentRoute st) ri \<noteq> Inr (JBool False)"
  shows "fst (change_route rt ri st) = Inr ()"
    and "currentRoute (snd (change_route rt ri st))
           = Some \<lparr>path = path ri, params = params ri, route = rt\<rparr>"
    and "invoked (snd (change_route rt ri st))
           = invoked st @ map Before_callback [0..<length (beforeRouteChangeCallbacks st)]
               @ handler_calls rt (path ri)
               @ map After_callback [0..<length (afterRouteChangeCallbacks st)]"
    and "cb \<in> set (afterRouteChangeCallbacks st) \<Longrightarrow>
         cb \<lparr>path = path ri, params = params ri, route = rt\<rparr> (currentRoute st) = Inl e \<Longrightarrow>
         console_error ''Error in after route change callback:'' e
           \<in> set (console (env (snd (change_route rt ri st))))"
    and "set (console (env (snd (run_before (beforeRouteChangeCallbacks st) 0 ri True st))))
           \<subseteq> set (console (env (snd (change_route rt ri st))))"
proof -
  obtain st2 where rb: "run_before (beforeRouteChangeCallbacks st) 0 ri True st = (True, st2)"
    using assms run_before_verdict[of "beforeRouteChangeCallbacks st" 0 ri True st]
    by (cases "run_before (beforeRouteChangeCallbacks st) 0 ri True st") auto
  have st2: "currentRoute st2 = currentRoute st" "afterRouteChangeCallbacks st2 = afterRouteChangeCallbacks st"
    "invoked st2 = invoked st @ map Before_callback [0..<length (beforeRouteChangeCallbacks st)]"
    using run_before_frame[of "beforeRouteChangeCallbacks st" 0 ri True st]
      run_before_invoked[of "beforeRouteChangeCallbacks st" 0 ri True st] rb by simp_all
  define cur where "cur = \<lparr>path = path ri, params = params ri, route = rt\<rparr>"
  define st4 where "st4 =
     (if ref_title rt \<noteq> []
      then st2\<lparr>currentRoute := Some cur, document_title := ref_title rt @ '' - Post Management''\<rparr>
      else st2\<lparr>currentRoute := Some cur\<rparr>)"
  define st5 where "st5 =
     (case call_handler rt (params ri) (map_option route_info.truncate (currentRoute st2)) of
        Inr res \<Rightarrow> note_handler rt (path ri) st4
      | Inl error \<Rightarrow> snd (console_io (console_error ''Error executing route handler:'' error)
                          (note_handler rt (path ri) st4)))"
  have cr: "change_route rt ri st =
              (Inr (), run_after (afterRouteChangeCallbacks st5) 0 cur (currentRoute st2) st5)"
    unfolding change_route_def rb st5_def st4_def cur_def Let_def by simp
  have st4: "afterRouteChangeCallbacks st4 = afterRouteChangeCallbacks st"
    "currentRoute st4 = Some cur" "invoked st4 = invoked st2" "env st4 = env st2"
    by (simp_all add: st4_def st2)
  have st5: "afterRouteChangeCallbacks st5 = afterRouteChangeCallbacks st"
    "currentRoute st5 = Some cur"
    "invoked st5 = invoked st2 @ handler_calls rt (path ri)"
    "set (console (env st2)) \<subseteq> set (console (env st5))"
    by (auto simp add: st5_def note_handler_frame note_handler_invoked console_io_eq st4
        console_log_def split: sum.splits)
  show "fst (change_route rt ri st) = Inr ()" by (simp add: cr)
  show "currentRoute (snd (change_route rt ri st))
           = Some \<lparr>path = path ri, params = params ri, route = rt\<rparr>"
    by (simp add: cr run_after_frame st5) (simp add: cur_def)
  show "invoked (snd (change_route rt ri st))
           = invoked st @ map Before_callback [0..<length (beforeRouteChangeCallbacks st)]
               @ handler_calls rt (path ri)
               @ map After_callback [0..<length (afterRouteChangeCallbacks st)]"
    by (simp add: cr run_after_invoked st5 st2)
  show "console_error ''Error in after route change callback:'' e
           \<in> set (console (env (snd (change_route rt ri st))))"
    if "cb \<in> set (afterRouteChangeCallbacks st)"
       "cb \<lparr>path = path ri, params = params ri, route = rt\<rparr> (currentRoute st) = Inl e"
    using run_after_logs[of cb "afterRouteChangeCallbacks st5" cur "currentRoute st2" e 0 st5] that
    by (simp add: cr st5 st2 cur_def)
  show "set (console (env (snd (run_before (beforeRouteChangeCallbacks st) 0 ri True st))))
           \<subseteq> set (console (env (snd (change_route rt ri st))))"
    using run_after_console_mono[of st5 "afterRouteChangeCallbacks st5" 0 cur "currentRoute st2"] st5(4)
    by (simp add: cr rb)
qed

section \<open>The router: guards, vetoes, faults and unknown routes\<close>

lemma routes_get_registered: "map_of rs p = Some d \<Longrightarrow> routes_get rs p = Some (Registered d)"
  by (simp add: routes_get_def)

text \<open>
  C1. In a route change whose path has a registered route definition: when the definition
  requires authentication and no session is stored, the change stops with a replace
  request for \<open>#login\<close>; and when the path is \<open>login\<close> and a session is stored, it
  stops with a replace request for \<open>#posts\<close>. In both cases no handler and no
  callback is invoked, and the current route and the document title stay as they were.
\<close>

theorem guards_redirect:
  assumes "map_of (routes st) (path ri) = Some d"
  shows "(requiresAuth d \<and> fst (isLoggedIn (env st)) = Inr False \<longrightarrow>
            fst (handleRouteChange ri st) = Inr ()
            \<and> location_requests (snd (handleRouteChange ri st))
                = location_requests st @ [location_replace ''#login'']
            \<and> invoked (snd (handleRouteChange ri st)) = invoked st
            \<and> currentRoute (snd (handleRouteChange ri st)) = currentRoute st
            \<and> document_title (snd (handleRouteChange ri st)) = document_title st)
       \<and> (path ri = ''login'' \<and> fst (isLoggedIn (env st)) = Inr True \<longrightarrow>
            fst (handleRouteChange ri st) = Inr ()
            \<and> location_requests (snd (handleRouteChange ri st))
                = location_requests st @ [location_replace ''#posts'']
            \<and> invoked (snd (handleRouteChange ri st)) = invoked st
            \<and> currentRoute (snd (handleRouteChange ri st)) = currentRoute st
            \<and> document_title (snd (handleRouteChange ri st)) = document_title st)"
proof (intro conjI impI)
  note found = routes_get_registered[OF assms]
  {
    assume a: "requiresAuth d \<and> fst (isLoggedIn (env st)) = Inr False"
    then have r: "ref_requiresAuth (Registered d)" by simp
    note eq = handleRouteChange_refused[OF found r conjunct2[OF a]]
    show "fst (handleRouteChange ri st) = Inr ()" by (simp add: eq)
    show "location_requests (snd (handleRouteChange ri st))
            = location_requests st @ [location_replace ''#login'']" by (simp add: eq)
    show "invoked (snd (handleRouteChange ri st)) = invoked st" by (simp add: eq)
    show "currentRoute (snd (handleRouteChange ri st)) = currentRoute st" by (simp add: eq)
    show "document_title (snd (handleRouteChange ri st)) = document_title st" by (simp add: eq)
  }
  {
    assume a: "path ri = ''login'' \<and> fst (isLoggedIn (env st)) = Inr True"
    from handleRouteChange_login[OF found conjunct1[OF a] conjunct2[OF a]]
    obtain w' where eq: "handleRouteChange ri st =
           (Inr (), st\<lparr>env := w',
                       location_requests := location_requests st @ [location_replace ''#posts'']\<rparr>)"
      by blast
    show "fst (handleRouteChange ri st) = Inr ()" by (simp add: eq)
    show "location_requests (snd (handleRouteChange ri st))
            = location_requests st @ [location_replace ''#posts'']" by (simp add: eq)
    show "invoked (snd (handleRouteChange ri st)) = invoked st" by (simp add: eq)
    show "currentRoute (snd (handleRouteChange ri st)) = currentRoute st" by (simp add: eq)
    show "document_title (snd (handleRouteChange ri st)) = document_title st" by (simp add: eq)
  }
qed

text \<open>
  C5. In a route change that reaches the callbacks (the route is found and no guard
  redirects), when at least one callback registered before the change returns \<open>false\<close>:
  every such callback has been invoked, in order, and nothing else (no handler, no
  callback after the change); the current route and the document title stay as they
  were, and nothing is asked of the location.
\<close>

theorem veto_cancels_transition:
  assumes found: "routes_get (routes st) (path ri) = Some rt"
    and auth: "ref_requiresAuth rt \<longrightarrow> fst (isLoggedIn (env st)) = Inr True"
    and login: "path ri = ''login'' \<longrightarrow> fst (isLoggedIn (env st)) = Inr False"
    and veto: "\<exists>cb \<in> set (beforeRouteChangeCallbacks st). cb (currentRoute st) ri = Inr (JBool False)"
  shows "fst (handleRouteChange ri st) = Inr ()
       \<and> currentRoute (snd (handleRouteChange ri st)) = currentRoute st
       \<and> document_title (snd (handleRouteChange ri st)) = document_title st
       \<and> invoked (snd (handleRouteChange ri st))
           = invoked st @ map Before_callback [0..<length (beforeRouteChangeCallbacks st)]
       \<and> location_requests (snd (handleRouteChange ri st)) = location_requests st"
proof -
  from handleRouteChange_proceeds[OF found auth login]
  obtain w' where eq: "handleRouteChange ri st = change_route rt ri (st\<lparr>env := w'\<rparr>)" by blast
  let ?st = "st\<lparr>env := w'\<rparr>"
  have "\<exists>cb \<in> set (beforeRouteChangeCallbacks ?st). cb (currentRoute ?st) ri = Inr (JBool False)"
    using veto by simp
  from change_route_cancelled[OF this, where rt = rt]
  have c: "change_route rt ri ?st = (Inr (), snd (run_before (beforeRouteChangeCallbacks st) 0 ri True ?st))"
    by simp
  show ?thesis
    by (simp add: eq c run_before_frame run_before_invoked)
qed

text \<open>
  C8. In a route change that reaches the callbacks, whatever the callbacks throw: the
  change returns normally; every callback before the change is invoked, in order, and
  the error of each one that throws is logged; a callback that throws does not veto,
  so when none returns \<open>false\<close> the change commits the new current route, and then
  the handler and every callback after the change are invoked, in order, and the error of
  each callback after the change that throws is logged.
\<close>

theorem callback_errors_are_caught:
  assumes found: "routes_get (routes st) (path ri) = Some rt"
    and auth: "ref_requiresAuth rt \<longrightarrow> fst (isLoggedIn (env st)) = Inr True"
    and login: "path ri = ''login'' \<longrightarrow> fst (isLoggedIn (env st)) = Inr False"
  shows "fst (handleRouteChange ri st) = Inr ()
       \<and> (\<exists>later. invoked (snd (handleRouteChange ri st))
             = invoked st @ map Before_callback [0..<length (beforeRouteChangeCallbacks st)] @ later)
       \<and> (\<forall>cb e. cb \<in> set (beforeRouteChangeCallbacks st) \<and> cb (currentRoute st) ri = Inl e \<longrightarrow>
             console_error ''Error in before route change callback:'' e
               \<in> set (console (env (snd (handleRouteChange ri st)))))
       \<and> ((\<forall>cb \<in> set (beforeRouteChangeCallbacks st). cb (currentRoute st) ri \<noteq> Inr (JBool False)) \<longrightarrow>
             currentRoute (snd (handleRouteChange ri st))
               = Some \<lparr>path = path ri, params = params ri, route = rt\<rparr>
             \<and> invoked (snd (handleRouteChange ri st))
               = invoked st @ map Before_callback [0..<length (beforeRouteChangeCallbacks st)]
                   @ handler_calls rt (path ri)
                   @ map After_callback [0..<length (afterRouteChangeCallbacks st)]
             \<and> (\<forall>cb e. cb \<in> set (afterRouteChangeCallbacks st)
                    \<and> cb \<lparr>path = path ri, params = params ri, route = rt\<rparr> (currentRoute st) = Inl e \<longrightarrow>
                   console_error ''Error in after route change callback:'' e
                     \<in> set (console (env (snd (handleRouteChange ri st))))))"
proof -
  from handleRouteChange_proceeds[OF found auth login]
  obtain w' where eq: "handleRouteChange ri st = change_route rt ri (st\<lparr>env := w'\<rparr>)" by blast
  define st1 where "st1 = st\<lparr>env := w'\<rparr>"
  have st1: "beforeRouteChangeCallbacks st1 = beforeRouteChangeCallbacks st"
    "afterRouteChangeCallbacks st1 = afterRouteChangeCallbacks st"
    "currentRoute st1 = currentRoute st" "invoked st1 = invoked st"
    by (simp_all add: st1_def)
  have eq1: "handleRouteChange ri st = change_route rt ri st1" by (simp add: eq st1_def)
  let ?rb = "run_before (beforeRouteChangeCallbacks st1) 0 ri True st1"
  have logged: "console_error ''Error in before route change callback:'' e \<in> set (console (env (snd ?rb)))"
    if "cb \<in> set (beforeRouteChangeCallbacks st)" "cb (currentRoute st) ri = Inl e" for cb e
    using run_before_logs[of cb "beforeRouteChangeCallbacks st1" st1 ri e 0 True] that
    by (simp add: st1)
  show ?thesis
  proof (cases "\<forall>cb \<in> set (beforeRouteChangeCallbacks st). cb (currentRoute st) ri \<noteq> Inr (JBool False)")
    case True
    then have nv: "\<forall>cb \<in> set (beforeRouteChangeCallbacks st1). cb (currentRoute st1) ri \<noteq> Inr (JBool False)"
      by (simp add: st1)
    note c = change_route_commits[OF nv, where rt = rt]
    have "fst (handleRouteChange ri st) = Inr ()" by (simp add: eq1 c(1))
    moreover have "\<exists>later. invoked (snd (handleRouteChange ri st))
             = invoked st @ map Before_callback [0..<length (beforeRouteChangeCallbacks st)] @ later"
      by (simp add: eq1 c(3) st1)
    moreover have "\<forall>cb e. cb \<in> set (beforeRouteChangeCallbacks st) \<and> cb (currentRoute st) ri = Inl e \<longrightarrow>
             console_error ''Error in before route change callback:'' e
               \<in> set (console (env (snd (handleRouteChange ri st))))"
      using logged c(5) by (auto simp add: eq1)
    moreover have "currentRoute (snd (handleRouteChange ri st))
               = Some \<lparr>path = path ri, params = params ri, route = rt\<rparr>"
      by (simp add: eq1 c(2))
    moreover have "invoked (snd (handleRouteChange ri st))
               = invoked st @ map Before_callback [0..<length (beforeRouteChangeCallbacks st)]
                   @ handler_calls rt (path ri)
                   @ map After_callback [0..<length (afterRouteChangeCallbacks st)]"
      by (simp add: eq1 c(3) st1)
    moreover have "\<forall>cb e. cb \<in> set (afterRouteChangeCallbacks st)
                    \<and> cb \<lparr>path = path ri, params = params ri, route = rt\<rparr> (currentRoute st) = Inl e \<longrightarrow>
                   console_error ''Error in after route change callback:'' e
                     \<in> set (console (env (snd (handleRouteChange ri st))))"
      using c(4) by (auto simp add: eq1 st1)
    ultimately show ?thesis by blast
  next
    case False
    then have v: "\<exists>cb \<in> set (beforeRouteChangeCallbacks st1). cb (currentRoute st1) ri = Inr (JBool False)"
      by (simp add: st1)
    note c = change_route_cancelled[OF v, where rt = rt]
    have "fst (handleRouteChange ri st) = Inr ()" by (simp add: eq1 c)
    moreover have "\<exists>later. invoked (snd (handleRouteChange ri st))
             = invoked st @ map Before_callback [0..<length (beforeRouteChangeCallbacks st)] @ later"
      by (simp add: eq1 c run_before_invoked st1)
    moreover have "\<forall>cb e. cb \<in> set (beforeRouteChangeCallbacks st) \<and> cb (currentRoute st) ri = Inl e \<longrightarrow>
             console_error ''Error in before route change callback:'' e
               \<in> set (console (env (snd (handleRouteChange ri st))))"
      using logged by (auto simp add: eq1 c st1)
    ultimately show ?thesis using False by blast
  qed
qed

text \<open>
  C6 (amended). For a path that has no registered route and is not the name of a member
  inherited from \<open>Object.prototype\<close>, the route change returns normally after one
  warning and one replace request for the default route; no handler and no callback is
  invoked, and this change leaves the current route and the document title as they were.
\<close>

theorem unknown_route_redirects:
  assumes "map_of (routes st) (path ri) = None" "path ri \<notin> set Object_prototype_names"
  shows "fst (handleRouteChange ri st) = Inr ()
       \<and> console (env (snd (handleRouteChange ri st)))
           = console (env st) @ [console_warn ''Route not found:'' (JStr (path ri))]
       \<and> location_requests (snd (handleRouteChange ri st))
           = location_requests st @ [location_replace (''#'' @ defaultRoute st)]
       \<and> invoked (snd (handleRouteChange ri st)) = invoked st
       \<and> currentRoute (snd (handleRouteChange ri st)) = currentRoute st
       \<and> document_title (snd (handleRouteChange ri st)) = document_title st"
proof -
  have "routes_get (routes st) (path ri) = None"
    using assms by (simp add: routes_get_def)
  from handleRouteChange_not_found[OF this] show ?thesis
    by (simp add: console_log_def)
qed

subsection \<open>The router on the routes of the application\<close>

lemma quiet_not_logged_in: "fst (isLoggedIn quiet_world) = Inr False"
  by (simp add: isLoggedIn_eq getItem_cases quiet_world_def)

lemma session_logged_in: "fst (isLoggedIn session_world) = Inr True"
  by (simp add: isLoggedIn_eq getItem_cases session_world_def quiet_world_def setUser_def
      setItem_cases USER_SESSION_KEY_def)

lemma app_routes_lookup:
  "map_of app_routes ''posts'' = Some posts_route"
  "map_of app_routes ''login'' = Some login_route"
  "map_of app_routes ''nowhere'' = None"
  by (simp_all add: app_routes_def)

theorem guards_redirect_witness:
  "location_requests (snd (handleRouteChange to_posts (app_page quiet_world))) = [location_replace ''#login'']
   \<and> invoked (snd (handleRouteChange to_posts (app_page quiet_world))) = []
   \<and> currentRoute (snd (handleRouteChange to_posts (app_page quiet_world))) = None
   \<and> location_requests (snd (handleRouteChange to_login (app_page session_world))) = [location_replace ''#posts'']
   \<and> invoked (snd (handleRouteChange to_login (app_page session_world))) = []
   \<and> currentRoute (snd (handleRouteChange to_login (app_page session_world))) = None"
proof -
  have p: "map_of (routes (app_page quiet_world)) (path to_posts) = Some posts_route"
    by (simp add: app_page_def to_posts_def app_routes_lookup)
  have l: "map_of (routes (app_page session_world)) (path to_login) = Some login_route"
    by (simp add: app_page_def to_login_def app_routes_lookup)
  have a: "requiresAuth posts_route \<and> fst (isLoggedIn (env (app_page quiet_world))) = Inr False"
    by (simp add: posts_route_def app_page_def quiet_not_logged_in)
  have b: "path to_login = ''login'' \<and> fst (isLoggedIn (env (app_page session_world))) = Inr True"
    by (simp add: to_login_def app_page_def session_logged_in)
  from guards_redirect[OF p] a guards_redirect[OF l] b
  show ?thesis by (simp add: app_page_def)
qed

theorem veto_cancels_transition_witness:
  "fst (handleRouteChange to_posts veto_page) = Inr ()
   \<and> currentRoute (snd (handleRouteChange to_posts veto_page)) = None
   \<and> document_title (snd (handleRouteChange to_posts veto_page)) = []
   \<and> invoked (snd (handleRouteChange to_posts veto_page))
       = [Before_callback 0, Before_callback 1, Before_callback 2]
   \<and> location_requests (snd (handleRouteChange to_posts veto_page)) = []"
proof -
  have found: "routes_get (routes veto_page) (path to_posts) = Some (Registered posts_route)"
    by (simp add: veto_page_def app_page_def to_posts_def routes_get_def app_routes_lookup)
  have auth: "ref_requiresAuth (Registered posts_route) \<longrightarrow> fst (isLoggedIn (env veto_page)) = Inr True"
    by (simp add: veto_page_def app_page_def session_logged_in)
  have login: "path to_posts = ''login'' \<longrightarrow> fst (isLoggedIn (env veto_page)) = Inr False"
    by (simp add: to_posts_def)
  have veto: "\<exists>cb \<in> set (beforeRouteChangeCallbacks veto_page).
                 cb (currentRoute veto_page) to_posts = Inr (JBool False)"
    by (simp add: veto_page_def)
  have n: "[0..<length (beforeRouteChangeCallbacks veto_page)] = [0, 1, 2]"
    by (simp add: veto_page_def upt_rec)
  from veto_cancels_transition[OF found auth login veto]
  show ?thesis by (simp add: n) (simp add: veto_page_def app_page_def)
qed

theorem callback_errors_are_caught_witness:
  "fst (handleRouteChange to_posts faulty_page) = Inr ()
   \<and> map_option path (currentRoute (snd (handleRouteChange to_posts faulty_page))) = Some ''posts''
   \<and> invoked (snd (handleRouteChange to_posts faulty_page))
       = [Before_callback 0, Before_callback 1, Route_handler ''posts'', After_callback 0, After_callback 1]
   \<and> console_error ''Error in before route change callback:'' (Error ''before'')
       \<in> set (console (env (snd (handleRouteChange to_posts faulty_page))))
   \<and> console_error ''Error in after route change callback:'' (Error ''after'')
       \<in> set (console (env (snd (handleRouteChange to_posts faulty_page))))"
proof -
  have found: "routes_get (routes faulty_page) (path to_posts) = Some (Registered posts_route)"
    by (simp add: faulty_page_def app_page_def to_posts_def routes_get_def app_routes_lookup)
  have auth: "ref_requiresAuth (Registered posts_route) \<longrightarrow> fst (isLoggedIn (env faulty_page)) = Inr True"
    by (simp add: faulty_page_def app_page_def session_logged_in)
  have login: "path to_posts = ''login'' \<longrightarrow> fst (isLoggedIn (env faulty_page)) = Inr False"
    by (simp add: to_posts_def)
  have noveto: "\<forall>cb \<in> set (beforeRouteChangeCallbacks faulty_page).
                  cb (currentRoute faulty_page) to_posts \<noteq> Inr (JBool False)"
    by (simp add: faulty_page_def)
  have b: "(\<lambda>current new. Inl (Error ''before'')) \<in> set (beforeRouteChangeCallbacks faulty_page)"
    by (simp add: faulty_page_def)
  have a: "(\<lambda>current previous. Inl (Error ''after'')) \<in> set (afterRouteChangeCallbacks faulty_page)"
    by (simp add: faulty_page_def)
  have n: "[0..<length (beforeRouteChangeCallbacks faulty_page)] = [0, 1]"
    "[0..<length (afterRouteChangeCallbacks faulty_page)] = [0, 1]"
    by (simp_all add: faulty_page_def upt_rec)
  have i: "invoked faulty_page = []" by (simp add: faulty_page_def app_page_def)
  note t = callback_errors_are_caught[OF found auth login]
  from t have 1: "fst (handleRouteChange to_posts faulty_page) = Inr ()" by blast
  from t noveto have 2: "currentRoute (snd (handleRouteChange to_posts faulty_page))
               = Some \<lparr>path = path to_posts, params = params to_posts, route = Registered posts_route\<rparr>"
    by blast
  from t noveto have 3: "invoked (snd (handleRouteChange to_posts faulty_page))
               = invoked faulty_page @ map Before_callback [0..<length (beforeRouteChangeCallbacks faulty_page)]
                   @ handler_calls (Registered posts_route) (path to_posts)
                   @ map After_callback [0..<length (afterRouteChangeCallbacks faulty_page)]"
    by blast
  from t b have 4: "console_error ''Error in before route change callback:'' (Error ''before'')
       \<in> set (console (env (snd (handleRouteChange to_posts faulty_page))))"
    by blast
  from t noveto a have 5: "console_error ''Error in after route change callback:'' (Error ''after'')
       \<in> set (console (env (snd (handleRouteChange to_posts faulty_page))))"
    by blast
  from 1 2 3 4 5 show ?thesis
    by (simp add: n i handler_calls_def to_posts_def)
qed

theorem unknown_route_redirects_witness:
  "fst (handleRouteChange to_nowhere (app_page quiet_world)) = Inr ()
   \<and> console (env (snd (handleRouteChange to_nowhere (app_page quiet_world))))
       = [console_warn ''Route not found:'' (JStr ''nowhere'')]
   \<and> location_requests (snd (handleRouteChange to_nowhere (app_page quiet_world)))
       = [location_replace ''#login'']
   \<and> invoked (snd (handleRouteChange to_nowhere (app_page quiet_world))) = []
   \<and> currentRoute (snd (handleRouteChange to_nowhere (app_page quiet_world))) = None"
proof -
  have a: "map_of (routes (app_page quiet_world)) (path to_nowhere) = None"
    by (simp add: app_page_def to_nowhere_def app_routes_lookup)
  have b: "path to_nowhere \<notin> set Object_prototype_names"
    by (simp add: to_nowhere_def Object_prototype_names_def)
  from unknown_route_redirects[OF a b]
  show ?thesis by (simp add: app_page_def quiet_world_def to_nowhere_def)
qed

text \<open>
  With a session stored and the fragment \<open>#nowhere\<close>: the path is not registered and the
  change leaves the current route unset; the redirect to the default route \<open>login\<close> is
  itself redirected to \<open>posts\<close>, so once the browser has delivered the requests the
  current route is \<open>posts\<close>.
\<close>

theorem unknown_route_redirects_counterexample:
  "fst (parseHash None lost_page) = Inr to_nowhere
   \<and> \<not> hasRoute ''nowhere'' lost_page
   \<and> defaultRoute lost_page = ''login''
   \<and> currentRoute (snd (refresh lost_page)) = None
   \<and> location_requests (snd (refresh lost_page)) = [location_replace ''#login'']
   \<and> map_option path (currentRoute (deliver 3 0 (snd (refresh lost_page)))) = Some ''posts''"
  by code_simp

text \<open>
  A path that names a member inherited from \<open>Object.prototype\<close> is not registered
  (\<open>hasRoute\<close> says so), yet \<open>routes[path]\<close> finds the member: the change is
  committed with that path, nothing is redirected, and the call of the missing handler
  is the TypeError that is logged.
\<close>

lemma inherited_member_is_committed:
  "\<not> hasRoute ''constructor'' (app_page quiet_world)
   \<and> map_option path (currentRoute (snd (handleRouteChange \<lparr>path = ''constructor'', params = []\<rparr>
                                           (app_page quiet_world)))) = Some ''constructor''
   \<and> location_requests (snd (handleRouteChange \<lparr>path = ''constructor'', params = []\<rparr>
                                           (app_page quiet_world))) = []
   \<and> console (env (snd (handleRouteChange \<lparr>path = ''constructor'', params = []\<rparr>
                                           (app_page quiet_world))))
       = [console_error ''Error executing route handler:'' TypeError]"
  by code_simp

section \<open>Percent-encoding and decoding\<close>

lemma hex_digits_16: "\<forall>n \<in> set [0..<16]. hex_value (hex_digit n) = Some n"
  by code_simp

lemma hex_value_digit: "n < 16 \<Longrightarrow> hex_value (hex_digit n) = Some n"
  using hex_digits_16 by simp

lemma hex_digit_mem: "n < 16 \<Longrightarrow> hex_digit n \<in> set ''0123456789ABCDEF''"
  unfolding hex_digit_def by (rule nth_mem) simp

lemma of_char_less_256: "(of_char c :: nat) < 256"
proof -
  have "(of_char c :: nat) mod 256 < 256" by (rule mod_less_divisor) simp
  then show ?thesis by simp
qed

lemma take_escapes_percent_encode:
  "take_escapes (Suc n) (percent_encode c @ s) =
     (case take_escapes n s of None \<Rightarrow> None
      | Some (bytes, rest) \<Rightarrow> Some (of_char c # bytes, rest))"
proof -
  have d: "(of_char c :: nat) div 16 < 16" and m: "(of_char c :: nat) mod 16 < 16"
    using of_char_less_256[of c] by (simp_all add: less_mult_imp_div_less)
  have e: "16 * ((of_char c :: nat) div 16) + of_char c mod 16 = of_char c"
    by (rule mult_div_mod_eq)
  show ?thesis
    by (simp add: percent_encode_def hex_value_digit[OF d] hex_value_digit[OF m] e
        split: option.splits)
qed

lemma take_escapes_encoded:
  "take_escapes (length cs) (concat (map percent_encode cs) @ s) = Some (map of_char cs, s)"
  by (induction cs) (simp_all add: take_escapes_percent_encode)


lemma uri_unreserved_ascii: "uri_unreserved c \<Longrightarrow> (of_char c :: nat) < 128"
  by (auto simp add: uri_unreserved_def Let_def)

lemma percent_reserved: "\<not> uri_unreserved CHR ''%''"
  by code_simp

lemma encode_Cons:
  "encodeURIComponent (c # s) = (if uri_unreserved c then [c] else percent_encode c) @ encodeURIComponent s"
  by (simp add: encodeURIComponent_def)

lemma encode_append:
  "encodeURIComponent (s @ t) = encodeURIComponent s @ encodeURIComponent t"
  by (simp add: encodeURIComponent_def)

lemma encode_high_bytes:
  "\<forall>c \<in> set cs. 128 \<le> (of_char c :: nat) \<Longrightarrow>
   encodeURIComponent cs = concat (map percent_encode cs)"
proof (induction cs)
  case Nil
  then show ?case by (simp add: encodeURIComponent_def)
next
  case (Cons c cs)
  have "\<not> uri_unreserved c" using Cons.prems uri_unreserved_ascii[of c] by auto
  then show ?case using Cons by (simp add: encode_Cons)
qed

lemma valid_utf8_octets_tails:
  "valid_utf8_octets (b # ts) \<Longrightarrow> \<forall>t \<in> set ts. 128 \<le> t \<and> t < 256"
  by (cases "(b # ts)" rule: valid_utf8_octets.cases) (auto simp add: utf8_tail_def)

lemma decode_plain:
  "c \<noteq> CHR ''%'' \<Longrightarrow>
   decodeURIComponent (c # s) = (case decodeURIComponent s of Inl e \<Rightarrow> Inl e | Inr r \<Rightarrow> Inr (c # r))"
  by simp

lemma decode_escape_ascii:
  assumes "(of_char c :: nat) < 128"
  shows "decodeURIComponent (percent_encode c @ s) =
           (case decodeURIComponent s of Inl e \<Rightarrow> Inl e | Inr r \<Rightarrow> Inr (c # r))"
proof -
  have t: "take_escapes 1 (percent_encode c @ s) = Some ([of_char c], s)"
    using take_escapes_percent_encode[of 0 c s] by simp
  obtain rest where sh: "percent_encode c @ s = CHR ''%'' # rest"
    by (simp add: percent_encode_def)
  have "decodeURIComponent (CHR ''%'' # rest) =
           (case decodeURIComponent s of Inl e \<Rightarrow> Inl e | Inr r \<Rightarrow> Inr (c # r))"
    using t assms unfolding sh
    by (subst decodeURIComponent.simps(2)) (simp del: decodeURIComponent.simps split: sum.splits)
  then show ?thesis by (simp only: sh)
qed

lemma decode_escape_multi:
  assumes "128 \<le> (of_char c :: nat)" "utf8_continuations (of_char c) = length ts" "ts \<noteq> []"
    and "valid_utf8_octets (of_char c # map of_char ts)"
  shows "decodeURIComponent (percent_encode c @ concat (map percent_encode ts) @ s) =
           (case decodeURIComponent s of Inl e \<Rightarrow> Inl e | Inr r \<Rightarrow> Inr (c # ts @ r))"
proof -
  have t: "take_escapes 1 (percent_encode c @ concat (map percent_encode ts) @ s)
             = Some ([of_char c], concat (map percent_encode ts) @ s)"
    using take_escapes_percent_encode[of 0 c "concat (map percent_encode ts) @ s"] by simp
  have t2: "take_escapes (utf8_continuations (of_char c)) (concat (map percent_encode ts) @ s)
             = Some (map of_char ts, s)"
    using take_escapes_encoded[of ts s] assms(2) by simp
  obtain rest where sh: "percent_encode c @ concat (map percent_encode ts) @ s = CHR ''%'' # rest"
    by (simp add: percent_encode_def)
  have chars: "map char_of (of_char c # map of_char ts :: nat list) = c # ts"
    by (simp add: comp_def)
  have "decodeURIComponent (CHR ''%'' # rest) =
           (case decodeURIComponent s of Inl e \<Rightarrow> Inl e | Inr r \<Rightarrow> Inr (c # ts @ r))"
    using t t2 assms chars unfolding sh
    by (subst decodeURIComponent.simps(2)) (simp del: decodeURIComponent.simps map_map list.map split: sum.splits)
  then show ?thesis by (simp only: sh)
qed

lemma decode_encode:
  "utf8_string s \<Longrightarrow> decodeURIComponent (encodeURIComponent s) = Inr s"
proof (induction s rule: utf8_string.induct)
  case 1
  then show ?case by (simp add: encodeURIComponent_def)
next
  case (2 c s)
  show ?case
  proof (cases "(of_char c :: nat) < 128")
    case True
    then have ih: "decodeURIComponent (encodeURIComponent s) = Inr s"
      using "2.IH"(1) "2.prems" by simp
    show ?thesis
    proof (cases "uri_unreserved c")
      case u: True
      then have "c \<noteq> CHR ''%''" using percent_reserved by auto
      then show ?thesis using u ih by (simp add: encode_Cons del: decodeURIComponent.simps add: decode_plain)
    next
      case False
      then show ?thesis using ih
        by (simp add: encode_Cons decode_escape_ascii[OF True] del: decodeURIComponent.simps)
    qed
  next
    case False
    define n where "n = utf8_continuations (of_char c)"
    from False "2.prems" have p: "n \<noteq> 0" "n \<le> length s"
      "valid_utf8_octets (of_char c # map of_char (take n s))" "utf8_string (drop n s)"
      by (simp_all add: n_def)
    have ih: "decodeURIComponent (encodeURIComponent (drop n s)) = Inr (drop n s)"
      using "2.IH"(2)[OF False] p "2.prems" False by (simp add: n_def)
    have hi: "\<forall>t \<in> set (take n s). 128 \<le> (of_char t :: nat)"
      using valid_utf8_octets_tails[OF p(3)] by simp
    have c_res: "\<not> uri_unreserved c" using False uri_unreserved_ascii[of c] by auto
    have "encodeURIComponent (c # s) = encodeURIComponent (c # take n s @ drop n s)" by simp
    also have "\<dots> = percent_encode c @ encodeURIComponent (take n s) @ encodeURIComponent (drop n s)"
      using c_res by (simp only: encode_Cons encode_append if_False)
    also have "\<dots> = percent_encode c @ concat (map percent_encode (take n s)) @ encodeURIComponent (drop n s)"
      by (simp only: encode_high_bytes[OF hi])
    finally have e: "encodeURIComponent (c # s) =
        percent_encode c @ concat (map percent_encode (take n s)) @ encodeURIComponent (drop n s)" .
    have len: "utf8_continuations (of_char c) = length (take n s)" using p(2) by (simp add: n_def)
    have ne: "take n s \<noteq> []" using p(1,2) by auto
    have ge: "128 \<le> (of_char c :: nat)" using False by simp
    show ?thesis
      unfolding e decode_escape_multi[OF ge len ne p(3)] ih by simp
  qed
qed

section \<open>Fragments: generating and parsing\<close>

lemma encoded_chars:
  "x \<in> set (encodeURIComponent s) \<Longrightarrow>
   uri_unreserved x \<or> x = CHR ''%'' \<or> x \<in> set ''0123456789ABCDEF''"
proof (induction s)
  case Nil
  then show ?case by (simp add: encodeURIComponent_def)
next
  case (Cons c s)
  have d: "(of_char c :: nat) div 16 < 16" and m: "(of_char c :: nat) mod 16 < 16"
    using of_char_less_256[of c] by (simp_all add: less_mult_imp_div_less)
  from Cons.prems consider "x \<in> set (if uri_unreserved c then [c] else percent_encode c)"
    | "x \<in> set (encodeURIComponent s)"
    by (auto simp add: encode_Cons)
  then show ?case
  proof cases
    case 1
    then show ?thesis
      using hex_digit_mem[OF d] hex_digit_mem[OF m]
      by (auto simp add: percent_encode_def split: if_splits)
  next
    case 2
    then show ?thesis by (rule Cons.IH)
  qed
qed

lemma separators_reserved:
  "\<not> uri_unreserved CHR ''&''" "\<not> uri_unreserved CHR ''=''" "\<not> uri_unreserved CHR ''?''"
  by code_simp+

lemma encoded_no_separator:
  "CHR ''&'' \<notin> set (encodeURIComponent s)"
  "CHR ''='' \<notin> set (encodeURIComponent s)"
  "CHR ''?'' \<notin> set (encodeURIComponent s)"
  using encoded_chars[of "CHR ''&''" s] encoded_chars[of "CHR ''=''" s] encoded_chars[of "CHR ''?''" s]
    separators_reserved by auto

lemma split_on_none: "c \<notin> set s \<Longrightarrow> split_on c s = [s]"
  by (induction s) auto

lemma split_on_append: "c \<notin> set s \<Longrightarrow> split_on c (s @ c # t) = s # split_on c t"
  by (induction s) auto

lemma split_on_join:
  "xs \<noteq> [] \<Longrightarrow> \<forall>x \<in> set xs. c \<notin> set x \<Longrightarrow> split_on c (join_with [c] xs) = xs"
proof (induction "[c]" xs rule: join_with.induct)
  case 1
  then show ?case by simp
next
  case (2 x)
  then show ?case by (simp add: split_on_none)
next
  case (3 x y ys)
  then show ?case by (simp add: split_on_append)
qed

lemma query_pair_chars: "CHR ''&'' \<notin> set (query_pair kv)" "CHR ''?'' \<notin> set (query_pair kv)"
  by (simp_all add: query_pair_def encoded_no_separator)

lemma generateUrl_pairs:
  assumes "distinct (map fst ps)"
  shows "generateUrl p ps =
           (if ps = [] then ''#'' @ p else ''#'' @ p @ ''?'' @ join_with ''&'' (map query_pair ps))"
proof -
  have "map (\<lambda>key. encodeURIComponent key @ ''='' @
                 encodeURIComponent (case map_of ps key of None \<Rightarrow> ''undefined'' | Some v \<Rightarrow> v))
            (map fst ps) = map query_pair ps"
    using assms by (auto simp add: query_pair_def)
  then show ?thesis
    by (simp add: generateUrl_def Let_def del: map_map)
qed

lemma parse_param_pair:
  assumes "utf8_string k" "utf8_string v"
  shows "parse_param (Inr acc) (query_pair (k, v)) = Inr (obj_set acc k v)"
proof -
  have "split_on CHR ''='' (query_pair (k, v)) = [encodeURIComponent k, encodeURIComponent v]"
    by (simp add: query_pair_def split_on_append split_on_none encoded_no_separator)
  then show ?thesis
    by (simp add: parse_param_def decode_encode assms)
qed

lemma parse_params:
  "\<forall>kv \<in> set ps. utf8_string (fst kv) \<and> utf8_string (snd kv) \<Longrightarrow>
   foldl parse_param (Inr acc) (map query_pair ps)
     = Inr (foldl (\<lambda>a kv. obj_set a (fst kv) (snd kv)) acc ps)"
proof (induction ps arbitrary: acc)
  case Nil
  then show ?case by simp
next
  case (Cons kv ps)
  have "parse_param (Inr acc) (query_pair kv) = Inr (obj_set acc (fst kv) (snd kv))"
    using parse_param_pair[of "fst kv" "snd kv" acc] Cons.prems by simp
  then show ?case using Cons by simp
qed

lemma update_fresh: "k \<notin> fst ` set al \<Longrightarrow> AList.update k v al = al @ [(k, v)]"
  by (induction al) auto

lemma obj_set_all:
  "distinct (map fst (acc @ ps)) \<Longrightarrow> ''__proto__'' \<notin> fst ` set ps \<Longrightarrow>
   foldl (\<lambda>a kv. obj_set a (fst kv) (snd kv)) acc ps = acc @ ps"
proof (induction ps arbitrary: acc)
  case Nil
  then show ?case by simp
next
  case (Cons kv ps)
  have f: "fst kv \<notin> fst ` set acc" using Cons.prems(1) by auto
  have "obj_set acc (fst kv) (snd kv) = acc @ [kv]"
    using Cons.prems(2) f by (auto simp add: obj_set_def update_fresh)
  moreover have "distinct (map fst ((acc @ [kv]) @ ps))" using Cons.prems(1) by simp
  moreover have "''__proto__'' \<notin> fst ` set ps" using Cons.prems(2) by simp
  ultimately show ?case using Cons.IH[of "acc @ [kv]"] by simp
qed


lemma join_with_chars: "set (join_with sep xs) \<subseteq> set sep \<union> \<Union> (set ` set xs)"
  by (induction sep xs rule: join_with.induct) auto

text \<open>
  C10 (amended). For every non-empty path without \<open>?\<close> and every object of parameters
  whose keys and values are strings (in UTF-8 form), with no key \<open>__proto__\<close>,
  \<open>parseHash\<close> of the fragment made by \<open>generateUrl\<close> returns exactly the path and the
  parameters, in the same order.
\<close>

theorem url_round_trip:
  assumes "p \<noteq> []" "CHR ''?'' \<notin> set p"
    and "distinct (map fst ps)" "''__proto__'' \<notin> fst ` set ps"
    and "\<forall>kv \<in> set ps. utf8_string (fst kv) \<and> utf8_string (snd kv)"
  shows "parseHash (Some (generateUrl p ps)) st = (Inr \<lparr>path = p, params = ps\<rparr>, st)"
proof (cases "ps = []")
  case True
  then have "generateUrl p ps = CHR ''#'' # p" by (simp add: generateUrl_def)
  then show ?thesis
    using assms(1,2) True by (simp add: parseHash_def Let_def split_on_none)
next
  case False
  define q where "q = join_with ''&'' (map query_pair ps)"
  have g: "generateUrl p ps = CHR ''#'' # p @ CHR ''?'' # q"
    using False by (simp add: generateUrl_pairs[OF assms(3)] q_def)
  have amp: "split_on CHR ''&'' q = map query_pair ps"
    unfolding q_def using False by (intro split_on_join) (simp_all add: query_pair_chars)
  have "\<forall>x \<in> set (split_on CHR ''&'' q). CHR ''?'' \<notin> set x"
    by (simp add: amp query_pair_chars)
  have qn: "CHR ''?'' \<notin> set q"
    unfolding q_def using join_with_chars[of "''&''" "map query_pair ps"]
    by (auto simp add: query_pair_chars)
  have q_ne: "q \<noteq> []"
  proof
    assume "q = []"
    then have "split_on CHR ''&'' q = [[]]" by simp
    with amp have "map query_pair ps = [[]]" by simp
    then obtain kv where "query_pair kv = []" by (metis list.inject map_eq_Cons_conv)
    then show False by (simp add: query_pair_def)
  qed
  have parts: "split_on CHR ''?'' (p @ CHR ''?'' # q) = [p, q]"
    using assms(2) qn by (simp add: split_on_append split_on_none)
  have fold: "foldl parse_param (Inr []) (split_on CHR ''&'' q) = Inr ps"
    using parse_params[OF assms(5), of "[]"] obj_set_all[of "[]" ps] assms(3,4)
    by (simp add: amp)
  show ?thesis
    using assms(1) q_ne by (simp add: g parseHash_def Let_def parts fold)
qed

theorem url_round_trip_witness:
  "fst (parseHash (Some (generateUrl ''detail'' query_example)) (app_page quiet_world))
     = Inr \<lparr>path = ''detail'', params = query_example\<rparr>"
proof -
  have a: "''detail'' \<noteq> []" "CHR ''?'' \<notin> set ''detail''" by simp_all
  have b: "distinct (map fst query_example)" "''__proto__'' \<notin> fst ` set query_example"
    by (simp_all add: query_example_def)
  have c: "\<forall>kv \<in> set query_example. utf8_string (fst kv) \<and> utf8_string (snd kv)"
    unfolding query_example_def by code_simp
  from url_round_trip[OF a b c, of "app_page quiet_world"] show ?thesis by simp
qed

text \<open>
  A parameter under the key \<open>__proto__\<close> is written into the fragment and lost by
  \<open>parseHash\<close>: the assignment \<open>params[key] = value\<close> makes no property of that name.
\<close>

theorem url_round_trip_counterexample:
  "generateUrl ''posts'' [(''__proto__'', ''x''), (''page'', ''2'')] = ''#posts?__proto__=x&page=2''
   \<and> fst (parseHash (Some (generateUrl ''posts'' [(''__proto__'', ''x''), (''page'', ''2'')]))
             (app_page quiet_world))
       = Inr \<lparr>path = ''posts'', params = [(''page'', ''2'')]\<rparr>"
  by code_simp

end
